theory Spec2Isabelle
  imports Main "HOL-Library.Sublist"
begin

section \<open>JavaScript strings\<close>

text \<open>
  A JavaScript string is a sequence of UTF-16 code units. It is modelled as a HOL
  \<open>string\<close>, the character of code \<open>n\<close> standing for the code unit \<open>n\<close>: the texts covered
  are those of code units below 256. On that range the white space of \<open>\s\<close> and of
  \<open>String.prototype.trim\<close> is TAB, LF, VT, FF, CR, SP and NBSP, and the line terminators
  that \<open>.\<close> does not match are LF and CR.
\<close>

definition isLineTerminator :: "char \<Rightarrow> bool" where
  "isLineTerminator c \<longleftrightarrow> c = CHR 0x0A \<or> c = CHR 0x0D"

definition isWhiteSpace :: "char \<Rightarrow> bool" where
  "isWhiteSpace c \<longleftrightarrow>
     c = CHR 0x09 \<or> c = CHR 0x0A \<or> c = CHR 0x0B \<or> c = CHR 0x0C \<or> c = CHR 0x0D \<or>
     c = CHR 0x20 \<or> c = CHR 0xA0"

text \<open>\<open>s.trim()\<close>: white space removed at both ends.\<close>

definition trim :: "string \<Rightarrow> string" where
  "trim s = rev (dropWhile isWhiteSpace (rev (dropWhile isWhiteSpace s)))"

text \<open>\<open>s.startsWith(p)\<close>.\<close>

definition startsWith :: "string \<Rightarrow> string \<Rightarrow> bool" where
  "startsWith s p = prefix p s"

text \<open>
  \<open>s.toLowerCase()\<close>: on code units below 256 the letters with a lower-case form are
  A to Z and 0xC0 to 0xDE without the multiplication sign 0xD7; each moves up by 32.
\<close>

definition lowerChar :: "char \<Rightarrow> char" where
  "lowerChar c =
     (let n = (of_char c :: nat)
      in if (65 \<le> n \<and> n \<le> 90) \<or> (192 \<le> n \<and> n \<le> 222 \<and> n \<noteq> 215)
         then char_of (n + 32) else c)"

definition toLowerCase :: "string \<Rightarrow> string" where
  "toLowerCase s = map lowerChar s"

text \<open>\<open>s.includes(sub)\<close>: \<open>sub\<close> occurs in \<open>s\<close> as a contiguous run.\<close>

fun str_includes :: "string \<Rightarrow> string \<Rightarrow> bool" where
  "str_includes [] sub = (sub = [])"
| "str_includes (c # cs) sub = (prefix sub (c # cs) \<or> str_includes cs sub)"

text \<open>
  \<open>s.split(sep)\<close> and \<open>lines.join(sep)\<close> for a separator of one character. The
  split of the empty string is the list of one empty string; the join of the empty
  list is the empty string.
\<close>

fun splitOn :: "char \<Rightarrow> string \<Rightarrow> string list" where
  "splitOn sep [] = [[]]"
| "splitOn sep (c # cs) =
     (if c = sep then [] # splitOn sep cs
      else (case splitOn sep cs of
              [] \<Rightarrow> [[c]]
            | l # ls \<Rightarrow> (c # l) # ls))"

fun joinWith :: "char \<Rightarrow> string list \<Rightarrow> string" where
  "joinWith sep [] = []"
| "joinWith sep [l] = l"
| "joinWith sep (l # m # ls) = l @ sep # joinWith sep (m # ls)"

text \<open>
  The truth value of a \<open>string | null\<close> in a condition: \<open>null\<close> and the empty string
  are falsy.
\<close>

fun truthy :: "string option \<Rightarrow> bool" where
  "truthy None = False"
| "truthy (Some s) = (s \<noteq> [])"


section \<open>The regular expressions of the section locator\<close>

text \<open>
  Both patterns are compiled with the flag \<open>i\<close> only: matching compares canonical
  code units. \<open>Canonicalize\<close> maps a code unit to its upper-case form when that is one
  code unit and does not move a non-ASCII unit into ASCII. Below 256 this changes a to z
  and 0xE0 to 0xFE without the division sign 0xF7, each by 32; the micro sign and y with
  diaeresis have upper-case forms above 255 that no other unit below 256 shares, so
  keeping them fixed decides the same equalities.
\<close>

definition canonicalize :: "char \<Rightarrow> nat" where
  "canonicalize c =
     (let n = (of_char c :: nat)
      in if (97 \<le> n \<and> n \<le> 122) \<or> (224 \<le> n \<and> n \<le> 254 \<and> n \<noteq> 247)
         then n - 32 else n)"

text \<open>
  The atoms that consume one character: a pattern character, \<open>\s\<close>, \<open>[:\n]\<close>, \<open>.\<close>,
  \<open>[A-Z]\<close> and \<open>[a-z]\<close>. Under the flag \<open>i\<close> a class matches a character whose
  canonical form is the canonical form of a member, so \<open>[A-Z]\<close> and \<open>[a-z]\<close> both
  match every ASCII letter.
\<close>

datatype cclass = Lit char | SpaceClass | ColonNewline | Dot | UpperAZ | LowerAZ

fun cmatch :: "cclass \<Rightarrow> char \<Rightarrow> bool" where
  "cmatch (Lit a) c = (canonicalize a = canonicalize c)"
| "cmatch SpaceClass c = isWhiteSpace c"
| "cmatch ColonNewline c = (c = CHR '':'' \<or> c = CHR 0x0A)"
| "cmatch Dot c = (\<not> isLineTerminator c)"
| "cmatch UpperAZ c = (65 \<le> canonicalize c \<and> canonicalize c \<le> 90)"
| "cmatch LowerAZ c =
     (canonicalize (CHR ''a'') \<le> canonicalize c \<and> canonicalize c \<le> canonicalize (CHR ''z''))"

text \<open>
  The terms of the patterns: an atom, a greedy \<open>*\<close> or \<open>+\<close> over an atom, a capturing
  group around a run of atoms (a group written in a heading), a capturing group
  around a lazy \<open>*?\<close> over an atom (the group of the body), and a lookahead over
  alternatives, each a run of atoms or the assertion \<open>$\<close> (end of input: the flag
  \<open>m\<close> is not set). A capturing group carries its number, counted by the opening
  parentheses of the source from the left.
\<close>

datatype alternative = Chars "cclass list" | EndOfInput

datatype node =
    Atom cclass
  | Star cclass
  | Plus cclass
  | GroupChars nat "cclass list"
  | GroupLazyStar nat cclass
  | Lookahead "alternative list"

text \<open>
  Backtracking is modelled by the list of outcomes in the order the matcher tries
  them: the first outcome of the whole pattern is the match. A greedy star offers the
  longest run first, a lazy star the shortest.
\<close>

fun greedy :: "(char \<Rightarrow> bool) \<Rightarrow> string \<Rightarrow> string list" where
  "greedy P [] = [[]]"
| "greedy P (c # cs) = (if P c then greedy P cs else []) @ [c # cs]"

fun lazy :: "(char \<Rightarrow> bool) \<Rightarrow> string \<Rightarrow> (string \<times> string) list" where
  "lazy P [] = [([], [])]"
| "lazy P (c # cs) =
     ([], c # cs) # (if P c then map (\<lambda>(k, r). (c # k, r)) (lazy P cs) else [])"

fun charsMatch :: "cclass list \<Rightarrow> string \<Rightarrow> bool" where
  "charsMatch [] s = True"
| "charsMatch (a # as) [] = False"
| "charsMatch (a # as) (c # cs) = (cmatch a c \<and> charsMatch as cs)"

fun altMatch :: "alternative \<Rightarrow> string \<Rightarrow> bool" where
  "altMatch (Chars as) s = charsMatch as s"
| "altMatch EndOfInput s = (s = [])"

text \<open>
  A matcher state is the capture of group 1 (\<open>None\<close> is \<open>undefined\<close>) and the input
  that remains. The program reads \<open>match[1]\<close> only, so the captures of the other groups
  are not kept.
\<close>

type_synonym mstate = "string option \<times> string"

fun step :: "node \<Rightarrow> mstate \<Rightarrow> mstate list" where
  "step (Atom a) (cap, s) =
     (case s of [] \<Rightarrow> [] | c # cs \<Rightarrow> if cmatch a c then [(cap, cs)] else [])"
| "step (Star a) (cap, s) = map (Pair cap) (greedy (cmatch a) s)"
| "step (Plus a) (cap, s) =
     (case s of [] \<Rightarrow> []
      | c # cs \<Rightarrow> if cmatch a c then map (Pair cap) (greedy (cmatch a) cs) else [])"
| "step (GroupChars n as) (cap, s) =
     (if charsMatch as s
      then [(if n = 1 then Some (take (length as) s) else cap, drop (length as) s)]
      else [])"
| "step (GroupLazyStar n a) (cap, s) =
     map (\<lambda>(k, r). (if n = 1 then Some k else cap, r)) (lazy (cmatch a) s)"
| "step (Lookahead alts) (cap, s) = (if list_ex (\<lambda>a. altMatch a s) alts then [(cap, s)] else [])"

fun run :: "node list \<Rightarrow> mstate \<Rightarrow> mstate list" where
  "run [] st = [st]"
| "run (n # ns) st = concat (map (run ns) (step n st))"

text \<open>
  \<open>text.match(pattern)\<close> for a pattern without the flag \<open>g\<close>: the start positions
  are tried from 0 to the length of the text, and the first position with an outcome
  gives the match.
\<close>

fun regexExec :: "node list \<Rightarrow> string \<Rightarrow> mstate option" where
  "regexExec p [] = (case run p (None, []) of [] \<Rightarrow> None | st # _ \<Rightarrow> Some st)"
| "regexExec p (c # cs) =
     (case run p (None, c # cs) of [] \<Rightarrow> regexExec p cs | st # _ \<Rightarrow> Some st)"

text \<open>
  The headings and boundaries are spliced into the pattern source, so they are read
  as patterns. The embedding reads this fragment of the pattern language: a pattern
  character (any character that is not a syntax character) stands for itself, a dot
  is the atom \<open>.\<close>, and a pair of parentheses around pattern characters and dots is a
  capturing group. A source with any other use of a syntax character is outside the
  fragment, and the functions below return \<open>None\<close> for it. The headings and boundaries
  of the catalog are pattern characters only.
\<close>

definition syntaxCharacters :: "char list" where
  "syntaxCharacters =
     [CHR 0x5E, CHR 0x24, CHR 0x5C, CHR 0x2E, CHR 0x2A, CHR 0x2B, CHR 0x3F, CHR 0x28,
      CHR 0x29, CHR 0x5B, CHR 0x5D, CHR 0x7B, CHR 0x7D, CHR 0x7C]"

definition literalSource :: "string \<Rightarrow> bool" where
  "literalSource s = list_all (\<lambda>c. \<not> List.member syntaxCharacters c) s"

definition parseAtom :: "char \<Rightarrow> cclass option" where
  "parseAtom c =
     (if c = CHR 0x2E then Some Dot
      else if List.member syntaxCharacters c then None
      else Some (Lit c))"

fun parseAtoms :: "string \<Rightarrow> cclass list option" where
  "parseAtoms [] = Some []"
| "parseAtoms (c # cs) =
     (case parseAtom c of
        None \<Rightarrow> None
      | Some a \<Rightarrow> (case parseAtoms cs of None \<Rightarrow> None | Some as \<Rightarrow> Some (a # as)))"

text \<open>
  \<open>parseSource g src\<close> reads a source that follows \<open>g\<close> opening parentheses and
  returns its terms and the number of groups opened so far. A group runs from its
  opening parenthesis to the next closing one.
\<close>

function parseSource :: "nat \<Rightarrow> string \<Rightarrow> (node list \<times> nat) option" where
  "parseSource g [] = Some ([], g)"
| "parseSource g (c # cs) =
     (if c = CHR 0x28 then
        (case dropWhile (\<lambda>x. x \<noteq> CHR 0x29) cs of
           [] \<Rightarrow> None
         | close # rest \<Rightarrow>
             (case parseAtoms (takeWhile (\<lambda>x. x \<noteq> CHR 0x29) cs) of
                None \<Rightarrow> None
              | Some as \<Rightarrow>
                  (case parseSource (Suc g) rest of
                     None \<Rightarrow> None
                   | Some (ns, g') \<Rightarrow> Some (GroupChars (Suc g) as # ns, g'))))
      else
        (case parseAtom c of
           None \<Rightarrow> None
         | Some a \<Rightarrow>
             (case parseSource g cs of
                None \<Rightarrow> None
              | Some (ns, g') \<Rightarrow> Some (Atom a # ns, g'))))"
  by pat_completeness auto
termination
proof (relation "measure (\<lambda>(g, s). length s)")
  show "wf (measure (\<lambda>(g, s). length s))" by simp
next
  fix g :: nat and c :: char and cs close rest
  assume "dropWhile (\<lambda>x. x \<noteq> CHR 0x29) cs = close # rest"
  then have "length (close # rest) \<le> length cs"
    by (metis length_dropWhile_le)
  then show "((Suc g, rest), (g, c # cs)) \<in> measure (\<lambda>(g, s). length s)" by simp
next
  fix g :: nat and c :: char and cs
  show "((g, cs), (g, c # cs)) \<in> measure (\<lambda>(g, s). length s)" by simp
qed

text \<open>A heading of the fragment in which no group is written.\<close>

definition noCapturingGroup :: "string \<Rightarrow> bool" where
  "noCapturingGroup h = (case parseSource 0 h of None \<Rightarrow> False | Some (ns, g) \<Rightarrow> g = 0)"

text \<open>
  \<open>new RegExp(`${sectionHeading}\\s*[:\\n]+\\s*(.*?)(?=\\n[A-Z][a-z]|$)`, "i")\<close>:
  the group of the body is numbered after the groups of the heading.
\<close>

definition sectionPattern :: "string \<Rightarrow> node list option" where
  "sectionPattern sectionHeading =
     (case parseSource 0 sectionHeading of
        None \<Rightarrow> None
      | Some (ns, g) \<Rightarrow>
          Some (ns @
            [Star SpaceClass, Plus ColonNewline, Star SpaceClass, GroupLazyStar (Suc g) Dot,
             Lookahead [Chars [Lit (CHR 0x0A), UpperAZ, LowerAZ], EndOfInput]]))"

text \<open>
  \<open>endBoundaries.map(b => `\\n${b}`).join("|")\<close>: the join of an empty array is the
  empty source, one alternative that matches everywhere. A boundary of the fragment
  is written with pattern characters and dots.
\<close>

definition boundaryPattern :: "string list \<Rightarrow> alternative list option" where
  "boundaryPattern endBoundaries =
     (if endBoundaries = [] then Some [Chars []]
      else those (map (\<lambda>b. case parseAtoms b of
                               None \<Rightarrow> None
                             | Some as \<Rightarrow> Some (Chars (Lit (CHR 0x0A) # as)))
                      endBoundaries))"

text \<open>
  \<open>new RegExp(`${startHeading}\\s*[:\\n]+\\s*(.*?)(?=${boundaryPattern}|$)`, "i")\<close>
\<close>

definition boundariesPattern :: "string \<Rightarrow> string list \<Rightarrow> node list option" where
  "boundariesPattern startHeading endBoundaries =
     (case parseSource 0 startHeading of
        None \<Rightarrow> None
      | Some (ns, g) \<Rightarrow>
          (case boundaryPattern endBoundaries of
             None \<Rightarrow> None
           | Some alts \<Rightarrow>
               Some (ns @
                 [Star SpaceClass, Plus ColonNewline, Star SpaceClass,
                  GroupLazyStar (Suc g) Dot, Lookahead (alts @ [EndOfInput])])))"


section \<open>The section locator\<close>

text \<open>
  \<open>match[1].trim()\<close> raises a TypeError when group 1 is \<open>undefined\<close>; the other errors
  are those of the file system and of the libraries. \<open>UnsupportedPattern\<close> is not an
  error of the program: it marks a heading or boundary outside the fragment of the
  pattern language read above, for which the embedding says nothing. The headings and
  boundaries of the catalog are inside the fragment, so the handler never meets it.
\<close>

datatype error = TypeError | ENOENT | LibraryError string | UnsupportedPattern

text \<open>\<open>return match ? match[1].trim() : null\<close>\<close>

definition matchResult :: "mstate option \<Rightarrow> error + string option" where
  "matchResult m =
     (case m of
        None \<Rightarrow> Inr None
      | Some (cap, _) \<Rightarrow> (case cap of None \<Rightarrow> Inl TypeError | Some b \<Rightarrow> Inr (Some (trim b))))"

definition extractSection :: "string \<Rightarrow> string \<Rightarrow> error + string option" where
  "extractSection txt sectionHeading =
     (case sectionPattern sectionHeading of
        None \<Rightarrow> Inl UnsupportedPattern
      | Some pattern \<Rightarrow> matchResult (regexExec pattern txt))"

definition extractSectionWithBoundaries ::
  "string \<Rightarrow> string \<Rightarrow> string list \<Rightarrow> error + string option" where
  "extractSectionWithBoundaries txt startHeading endBoundaries =
     (case boundariesPattern startHeading endBoundaries of
        None \<Rightarrow> Inl UnsupportedPattern
      | Some pattern \<Rightarrow> matchResult (regexExec pattern txt))"

fun extractSectionMultiple :: "string \<Rightarrow> string list \<Rightarrow> error + string option" where
  "extractSectionMultiple txt [] = Inr None"
| "extractSectionMultiple txt (heading # possibleHeadings) =
     (case extractSection txt heading of
        Inl e \<Rightarrow> Inl e
      | Inr sectionText \<Rightarrow>
          if truthy sectionText then Inr sectionText
          else extractSectionMultiple txt possibleHeadings)"


section \<open>The late-policy filter\<close>

definition mentionsLate :: "string \<Rightarrow> bool" where
  "mentionsLate line \<longleftrightarrow>
     str_includes (toLowerCase line) ''late'' \<or> str_includes (toLowerCase line) ''penalty''"

definition filterLatePolicy :: "string \<Rightarrow> string" where
  "filterLatePolicy txt = joinWith (CHR 0x0A) (filter mentionsLate (splitOn (CHR 0x0A) txt))"


section \<open>The section catalog and the extraction loop\<close>

record params =
  headings :: "string list option"
  boundaries :: "string list option"
  filter_name :: "string option"

definition sections :: "(string \<times> params) list" where
  "sections =
     [(''Late Policy'',
         \<lparr>headings = Some [''Homework:''], boundaries = None, filter_name = Some ''late_policy''\<rparr>),
      (''Grading Policy'',
         \<lparr>headings = Some [''Grading Scale:'', ''Grading Scale''],
          boundaries = Some [''Attendance'', ''Course Policies''], filter_name = None\<rparr>),
      (''Grading Weights'',
         \<lparr>headings = Some [''Grade Evaluation:'', ''Grade Evaluation'', ''Graded Work:'',
                           ''Graded Work''],
          boundaries = Some [''Grading Scale''], filter_name = None\<rparr>)]"

text \<open>
  The inner loop of the handler:
  \<open>for (const heading of headings) { sectionText = extractSectionWithBoundaries(...);
  if (sectionText) break; }\<close>. The last argument is \<open>sectionText\<close> on entry.
\<close>

fun boundaryLoop ::
  "string \<Rightarrow> string list \<Rightarrow> string list \<Rightarrow> string option \<Rightarrow> error + string option" where
  "boundaryLoop pdfText [] bs sectionText = Inr sectionText"
| "boundaryLoop pdfText (heading # hs) bs sectionText =
     (case extractSectionWithBoundaries pdfText heading bs of
        Inl e \<Rightarrow> Inl e
      | Inr sectionText' \<Rightarrow>
          if truthy sectionText' then Inr sectionText'
          else boundaryLoop pdfText hs bs sectionText')"

text \<open>
  The body of the loop over the catalog up to the filter: \<open>params.headings || []\<close>,
  \<open>params.boundaries || null\<close>, the pass with boundaries and the pass without. An array
  is truthy even when empty.
\<close>

definition locate :: "string \<Rightarrow> params \<Rightarrow> error + string option" where
  "locate pdfText ps =
     (let hs = (case headings ps of None \<Rightarrow> [] | Some h \<Rightarrow> h)
      in case boundaries ps of
           Some bs \<Rightarrow>
             (case boundaryLoop pdfText hs bs None of
                Inl e \<Rightarrow> Inl e
              | Inr sectionText \<Rightarrow>
                  if truthy sectionText then Inr sectionText
                  else extractSectionMultiple pdfText hs)
         | None \<Rightarrow> extractSectionMultiple pdfText hs)"

text \<open>\<open>extractedData[section] = sectionText\<close> on an object that keeps insertion order.\<close>

fun setProperty ::
  "(string \<times> string option) list \<Rightarrow> string \<Rightarrow> string option \<Rightarrow> (string \<times> string option) list" where
  "setProperty [] k v = [(k, v)]"
| "setProperty ((k', v') # kvs) k v =
     (if k' = k then (k, v) # kvs else (k', v') # setProperty kvs k v)"

text \<open>
  \<open>if (section === "Late Policy" && sectionText) sectionText = filterLatePolicy(sectionText)\<close>
\<close>

definition postFilter :: "string \<Rightarrow> string option \<Rightarrow> string option" where
  "postFilter section sectionText =
     (case sectionText of
        None \<Rightarrow> None
      | Some s \<Rightarrow>
          if section = ''Late Policy'' \<and> s \<noteq> [] then Some (filterLatePolicy s) else Some s)"

fun sectionsLoop ::
  "string \<Rightarrow> (string \<times> params) list \<Rightarrow> (string \<times> string option) list \<Rightarrow>
   error + (string \<times> string option) list" where
  "sectionsLoop pdfText [] extractedData = Inr extractedData"
| "sectionsLoop pdfText ((section, ps) # rest) extractedData =
     (case locate pdfText ps of
        Inl e \<Rightarrow> Inl e
      | Inr sectionText \<Rightarrow>
          sectionsLoop pdfText rest
            (setProperty extractedData section (postFilter section sectionText)))"

definition extractSections :: "string \<Rightarrow> error + (string \<times> string option) list" where
  "extractSections pdfText = sectionsLoop pdfText sections []"


section \<open>Text acquisition and the request handler\<close>

text \<open>
  The file system is the set of paths that exist. The calls that leave the program
  (\<open>fs.readFile\<close>, \<open>pdfParse\<close>, \<open>fromPath\<close>, the converter, \<open>Tesseract.recognize\<close>,
  \<open>fs.unlink\<close>) are recorded in the order they are made.
\<close>

datatype event =
    ReadFile string
  | PdfParse
  | FromPath string
  | Convert nat
  | Recognize string
  | Unlink string

record world =
  files :: "string set"
  trace :: "event list"

text \<open>
  What the libraries answer for the uploaded document: \<open>pdfParse\<close> on its bytes (the
  text and the page count, or a failure), the converter of \<open>pdf2pic\<close> on a page number
  (the path of the image it wrote, or a failure), and the recognition of the image of
  a page (its text, or a failure).
\<close>

record parsed =
  data_text :: string
  numpages :: nat

record env =
  pdfParse :: "error + parsed"
  converter :: "nat \<Rightarrow> error + string"
  recognize :: "nat \<Rightarrow> error + string"

definition emit :: "event \<Rightarrow> world \<Rightarrow> world" where
  "emit e w = w\<lparr>trace := trace w @ [e]\<rparr>"

definition readFile :: "string \<Rightarrow> world \<Rightarrow> (error + unit) \<times> world" where
  "readFile p w = (if p \<in> files w then Inr () else Inl ENOENT, emit (ReadFile p) w)"

definition unlink :: "string \<Rightarrow> world \<Rightarrow> (error + unit) \<times> world" where
  "unlink p w =
     (if p \<in> files w then (Inr (), (emit (Unlink p) w)\<lparr>files := files w - {p}\<rparr>)
      else (Inl ENOENT, emit (Unlink p) w))"

text \<open>The \<open>catch\<close> of both extraction functions logs the error and throws it again.\<close>

definition extractTextFromPDF :: "env \<Rightarrow> string \<Rightarrow> world \<Rightarrow> (error + string) \<times> world" where
  "extractTextFromPDF en pdfPath w =
     (case readFile pdfPath w of
        (Inl e, w1) \<Rightarrow> (Inl e, w1)
      | (Inr _, w1) \<Rightarrow>
          (case pdfParse en of
             Inl e \<Rightarrow> (Inl e, emit PdfParse w1)
           | Inr d \<Rightarrow> (Inr (data_text d), emit PdfParse w1)))"

text \<open>
  \<open>for (let i = 1; i <= numPages; i++)\<close>: convert page \<open>i\<close>, recognise the image,
  append the text and a newline, delete the image.
\<close>

function ocrLoop ::
  "env \<Rightarrow> nat \<Rightarrow> nat \<Rightarrow> string \<Rightarrow> world \<Rightarrow> (error + string) \<times> world" where
  "ocrLoop en i numPages ocrText w =
     (if i \<le> numPages then
        (case converter en i of
           Inl e \<Rightarrow> (Inl e, emit (Convert i) w)
         | Inr p \<Rightarrow>
             (let w1 = (emit (Convert i) w)\<lparr>files := insert p (files w)\<rparr>
              in case recognize en i of
                   Inl e \<Rightarrow> (Inl e, emit (Recognize p) w1)
                 | Inr t \<Rightarrow>
                     (case unlink p (emit (Recognize p) w1) of
                        (Inl e, w3) \<Rightarrow> (Inl e, w3)
                      | (Inr _, w3) \<Rightarrow>
                          ocrLoop en (i + 1) numPages (ocrText @ t @ [CHR 0x0A]) w3)))
      else (Inr ocrText, w))"
  by pat_completeness auto
termination
  by (relation "measure (\<lambda>(en, i, numPages, ocrText, w). Suc numPages - i)") auto

definition extractTextWithOCR :: "env \<Rightarrow> string \<Rightarrow> world \<Rightarrow> (error + string) \<times> world" where
  "extractTextWithOCR en pdfPath w =
     (case readFile pdfPath (emit (FromPath pdfPath) w) of
        (Inl e, w1) \<Rightarrow> (Inl e, w1)
      | (Inr _, w1) \<Rightarrow>
          (case pdfParse en of
             Inl e \<Rightarrow> (Inl e, emit PdfParse w1)
           | Inr d \<Rightarrow> ocrLoop en 1 (numpages d) [] (emit PdfParse w1)))"

text \<open>
  \<open>if (!pdfText.trim() || pdfText.trim().startsWith("%PDF"))\<close>
\<close>

definition needsOCR :: "string \<Rightarrow> bool" where
  "needsOCR pdfText \<longleftrightarrow> trim pdfText = [] \<or> startsWith (trim pdfText) ''%PDF''"

text \<open>Lines 146 to 150 of the handler: the native text, or the text of the OCR.\<close>

definition acquireText :: "env \<Rightarrow> string \<Rightarrow> world \<Rightarrow> (error + string) \<times> world" where
  "acquireText en filePath w =
     (case extractTextFromPDF en filePath w of
        (Inl e, w1) \<Rightarrow> (Inl e, w1)
      | (Inr pdfText, w1) \<Rightarrow>
          if needsOCR pdfText then extractTextWithOCR en filePath w1 else (Inr pdfText, w1))"

text \<open>
  The request carries the file \<open>multer\<close> stored (\<open>req.file\<close>, or none). The response is
  a status and a JSON body.
\<close>

record upload =
  originalname :: string
  path :: string

datatype body = ErrorBody string | Data "(string \<times> string option) list"

datatype response = Response nat body

text \<open>The \<open>try\<close> block after the two checks of the request.\<close>

definition tryBlock ::
  "env \<Rightarrow> string \<Rightarrow> world \<Rightarrow> (error + (string \<times> string option) list) \<times> world" where
  "tryBlock en filePath w =
     (case acquireText en filePath w of
        (Inl e, w1) \<Rightarrow> (Inl e, w1)
      | (Inr pdfText, w1) \<Rightarrow>
          (case extractSections pdfText of
             Inl e \<Rightarrow> (Inl e, w1)
           | Inr extractedData \<Rightarrow>
               (case unlink filePath w1 of
                  (Inl e, w2) \<Rightarrow> (Inl e, w2)
                | (Inr _, w2) \<Rightarrow> (Inr extractedData, w2))))"

text \<open>\<open>app.post("/extract", upload.single("file"), async (req, res) => ...)\<close>\<close>

definition postExtract :: "env \<Rightarrow> upload option \<Rightarrow> world \<Rightarrow> response \<times> world" where
  "postExtract en reqFile w =
     (case reqFile of
        None \<Rightarrow> (Response 400 (ErrorBody ''No file provided.''), w)
      | Some f \<Rightarrow>
          if originalname f = [] then (Response 400 (ErrorBody ''No file selected.''), w)
          else (case tryBlock en (path f) w of
                  (Inl e, w1) \<Rightarrow> (Response 500 (ErrorBody ''Internal Server Error''), w1)
                | (Inr extractedData, w1) \<Rightarrow> (Response 200 (Data extractedData), w1)))"


section \<open>Notions used to state the properties\<close>

text \<open>
  A separator is what \<open>\s*[:\n]+\s*\<close> consumes: white space and colons, with a colon or
  a newline among them.
\<close>

definition separator :: "string \<Rightarrow> bool" where
  "separator sep \<longleftrightarrow>
     list_all (\<lambda>c. isWhiteSpace c \<or> c = CHR '':'') sep \<and>
     list_ex (\<lambda>c. c = CHR '':'' \<or> c = CHR 0x0A) sep"

text \<open>Two strings of the same canonical code units: equal when case is ignored.\<close>

definition sameIgnoringCase :: "string \<Rightarrow> string \<Rightarrow> bool" where
  "sameIgnoringCase a b \<longleftrightarrow> map canonicalize a = map canonicalize b"

text \<open>The heading is present somewhere in the text, case ignored.\<close>

fun headingOccurs :: "string \<Rightarrow> string \<Rightarrow> bool" where
  "headingOccurs h [] = (h = [])"
| "headingOccurs h (c # cs) =
     (sameIgnoringCase h (take (length h) (c # cs)) \<or> headingOccurs h cs)"

text \<open>
  The default boundary in the spec's words, "the next line that starts with a
  capitalized word followed by a lowercase word": somewhere in the text a newline is
  followed by a capital letter and a small letter.
\<close>

fun spec_headingLikeLineFollows :: "string \<Rightarrow> bool" where
  "spec_headingLikeLineFollows (n # a # b # t) =
     ((n = CHR 0x0A \<and> 65 \<le> (of_char a :: nat) \<and> (of_char a :: nat) \<le> 90 \<and>
       97 \<le> (of_char b :: nat) \<and> (of_char b :: nat) \<le> 122) \<or>
      spec_headingLikeLineFollows (a # b # t))"
| "spec_headingLikeLineFollows s = False"

text \<open>A value of the result that is a non-empty string without white space at its ends.\<close>

definition nonEmptyTrimmed :: "string \<Rightarrow> bool" where
  "nonEmptyTrimmed r \<longleftrightarrow> r \<noteq> [] \<and> trim r = r"

text \<open>What the locator returns: \<open>null\<close>, or a non-empty trimmed string on one line.\<close>

definition goodBody :: "string option \<Rightarrow> bool" where
  "goodBody v \<longleftrightarrow> v = None \<or> (\<exists>r. v = Some r \<and> nonEmptyTrimmed r \<and> CHR 0x0A \<notin> set r)"


section \<open>Notions used to state the properties of the acquisition\<close>

text \<open>
  The page numbers handed to the converter and the image paths handed to the
  recognition, in the order of the calls; the text and the image path of a page; the
  page count of the document.
\<close>

fun convertedPages :: "event list \<Rightarrow> nat list" where
  "convertedPages [] = []"
| "convertedPages (Convert i # es) = i # convertedPages es"
| "convertedPages (e # es) = convertedPages es"

fun recognizedPaths :: "event list \<Rightarrow> string list" where
  "recognizedPaths [] = []"
| "recognizedPaths (Recognize p # es) = p # recognizedPaths es"
| "recognizedPaths (e # es) = recognizedPaths es"

definition pageText :: "env \<Rightarrow> nat \<Rightarrow> string" where
  "pageText en i = (case recognize en i of Inr t \<Rightarrow> t | Inl e \<Rightarrow> [])"

definition pagePath :: "env \<Rightarrow> nat \<Rightarrow> string" where
  "pagePath en i = (case converter en i of Inr p \<Rightarrow> p | Inl e \<Rightarrow> [])"

definition pageCount :: "env \<Rightarrow> nat" where
  "pageCount en = (case pdfParse en of Inr d \<Rightarrow> numpages d | Inl e \<Rightarrow> 0)"

text \<open>
  Example documents and the file system after an upload: a scanned document of two
  pages, a document whose first page cannot be recognised, a corrupt document, and a
  document with a text layer.
\<close>

definition scannedDocument :: env where
  "scannedDocument =
     \<lparr>pdfParse = Inr \<lparr>data_text = '''', numpages = 2\<rparr>,
      converter = (\<lambda>i. if i = 1 then Inr ''tmp/page.1.png'' else Inr ''tmp/page.2.png''),
      recognize = (\<lambda>i. if i = 1 then Inr ''Homework'' else Inr ''Late work: none'')\<rparr>"

definition unreadablePage :: env where
  "unreadablePage =
     \<lparr>pdfParse = Inr \<lparr>data_text = '''', numpages = 2\<rparr>,
      converter = (\<lambda>i. if i = 1 then Inr ''tmp/page.1.png'' else Inr ''tmp/page.2.png''),
      recognize = (\<lambda>i. Inl (LibraryError ''recognition failed''))\<rparr>"

definition corruptDocument :: env where
  "corruptDocument =
     \<lparr>pdfParse = Inl (LibraryError ''Invalid PDF structure''),
      converter = (\<lambda>i. Inl (LibraryError ''conversion failed'')),
      recognize = (\<lambda>i. Inl (LibraryError ''recognition failed''))\<rparr>"

definition uploaded :: world where
  "uploaded = \<lparr>files = {''tmp/upload1''}, trace = []\<rparr>"

definition nativeDocument :: env where
  "nativeDocument =
     \<lparr>pdfParse = Inr \<lparr>data_text = ''Homework:: late'', numpages = 1\<rparr>,
      converter = (\<lambda>i. Inr ''tmp/page.1.png''),
      recognize = (\<lambda>i. Inr ''unused'')\<rparr>"


section \<open>Facts about the matcher\<close>

lemma greedy_sound: "r \<in> set (greedy P s) \<Longrightarrow> \<exists>k. s = k @ r \<and> list_all P k"
proof (induction s)
  case Nil
  then show ?case by simp
next
  case (Cons c cs)
  show ?case
  proof (cases "r = c # cs")
    case True
    then show ?thesis by simp
  next
    case False
    with Cons.prems have "P c" and "r \<in> set (greedy P cs)"
      by (auto split: if_splits)
    then obtain k where "cs = k @ r" "list_all P k"
      using Cons.IH by blast
    with \<open>P c\<close> have "c # cs = (c # k) @ r \<and> list_all P (c # k)" by simp
    then show ?thesis by blast
  qed
qed

lemma lazy_sound: "(k, r) \<in> set (lazy P s) \<Longrightarrow> s = k @ r \<and> list_all P k"
  by (induction s arbitrary: k) (auto split: if_splits)

lemma concat_map_concat:
  "concat (map f (concat xss)) = concat (map (\<lambda>xs. concat (map f xs)) xss)"
  by (induction xss) simp_all

lemma run_append: "run (xs @ ys) st = concat (map (run ys) (run xs st))"
proof (induction xs arbitrary: st)
  case Nil
  then show ?case by simp
next
  case (Cons n ns)
  have "run (ns @ ys) = (\<lambda>st. concat (map (run ys) (run ns st)))"
    using Cons.IH by (intro ext)
  then show ?case
    by (simp add: concat_map_concat comp_def)
qed

lemma run_atoms:
  "run (map Atom as) (cap, s) =
     (if charsMatch as s then [(cap, drop (length as) s)] else [])"
proof (induction as arbitrary: s)
  case Nil
  then show ?case by simp
next
  case (Cons a as)
  then show ?case
    by (cases s) simp_all
qed

lemma charsMatch_take: "charsMatch as s \<Longrightarrow> length as \<le> length s"
  by (induction as s rule: charsMatch.induct) simp_all

lemma regexExec_Some:
  "regexExec p s = Some st \<Longrightarrow> \<exists>pre suf. s = pre @ suf \<and> st \<in> set (run p (None, suf))"
proof (induction s)
  case Nil
  then show ?case by (auto split: list.splits)
next
  case (Cons c cs)
  show ?case
  proof (cases "run p (None, c # cs)")
    case Nil
    with Cons.prems have "regexExec p cs = Some st" by simp
    then obtain pre suf where "cs = pre @ suf" "st \<in> set (run p (None, suf))"
      using Cons.IH by blast
    then have "c # cs = (c # pre) @ suf \<and> st \<in> set (run p (None, suf))" by simp
    then show ?thesis by blast
  next
    case (Cons st' sts)
    with Cons.prems have "st = st'" by simp
    with Cons have "c # cs = [] @ (c # cs) \<and> st \<in> set (run p (None, c # cs))" by simp
    then show ?thesis by blast
  qed
qed

lemma regexExec_None:
  "(\<And>suf. suffix suf s \<Longrightarrow> run p (None, suf) = []) \<Longrightarrow> regexExec p s = None"
proof (induction s)
  case Nil
  then show ?case by simp
next
  case (Cons c cs)
  have "run p (None, c # cs) = []" using Cons.prems by simp
  moreover have "regexExec p cs = None"
    using Cons.IH Cons.prems by (simp add: suffix_Cons)
  ultimately show ?case by simp
qed

lemma charsMatch_Lit:
  "charsMatch (map Lit h) s \<longleftrightarrow> length h \<le> length s \<and> sameIgnoringCase h (take (length h) s)"
proof (induction h arbitrary: s)
  case Nil
  then show ?case by (simp add: sameIgnoringCase_def)
next
  case (Cons a h)
  then show ?case
    by (cases s) (auto simp: sameIgnoringCase_def)
qed

lemma sameIgnoringCase_length: "sameIgnoringCase a b \<Longrightarrow> length a = length b"
  unfolding sameIgnoringCase_def by (metis length_map)

lemma headingOccurs_suffix:
  "suffix suf s \<Longrightarrow> charsMatch (map Lit h) suf \<Longrightarrow> headingOccurs h s"
proof (induction s)
  case Nil
  then show ?case by (cases h) simp_all
next
  case (Cons c cs)
  show ?case
  proof (cases "suf = c # cs")
    case True
    with Cons.prems show ?thesis by (simp add: charsMatch_Lit)
  next
    case False
    with Cons.prems have "suffix suf cs" by (simp add: suffix_Cons)
    with Cons show ?thesis by simp
  qed
qed

lemma run_Cons_mem:
  "st' \<in> set (run (n # ns) st) \<Longrightarrow> \<exists>m \<in> set (step n st). st' \<in> set (run ns m)"
  by simp

lemma tail_sound:
  assumes "(cap', r) \<in> set (run [Star SpaceClass, Plus ColonNewline, Star SpaceClass,
                                  GroupLazyStar 1 Dot, Lookahead alts] (cap, s))"
  shows "\<exists>sep body. s = sep @ body @ r \<and> separator sep \<and> cap' = Some body \<and>
           list_all (\<lambda>c. \<not> isLineTerminator c) body \<and> list_ex (\<lambda>a. altMatch a r) alts"
proof -
  let ?t4 = "[Lookahead alts]"
  let ?t3 = "GroupLazyStar 1 Dot # ?t4"
  let ?t2 = "Star SpaceClass # ?t3"
  let ?t1 = "Plus ColonNewline # ?t2"
  from run_Cons_mem [OF assms] obtain m1 where m1: "m1 \<in> set (step (Star SpaceClass) (cap, s))"
    and r1: "(cap', r) \<in> set (run ?t1 m1)"
    by blast
  from m1 obtain s1 where s1: "s1 \<in> set (greedy isWhiteSpace s)" and m1eq: "m1 = (cap, s1)"
    by (auto simp: cmatch.simps [abs_def])
  from run_Cons_mem [OF r1] obtain m2 where m2: "m2 \<in> set (step (Plus ColonNewline) (cap, s1))"
    and r2: "(cap', r) \<in> set (run ?t2 m2)"
    unfolding m1eq by blast
  from m2 obtain c cs s2 where s1eq: "s1 = c # cs" and c: "c = CHR '':'' \<or> c = CHR 0x0A"
    and s2: "s2 \<in> set (greedy (cmatch ColonNewline) cs)" and m2eq: "m2 = (cap, s2)"
    by (cases s1) (auto split: if_splits)
  from run_Cons_mem [OF r2] obtain m3 where m3: "m3 \<in> set (step (Star SpaceClass) (cap, s2))"
    and r3: "(cap', r) \<in> set (run ?t3 m3)"
    unfolding m2eq by blast
  from m3 obtain s3 where s3: "s3 \<in> set (greedy isWhiteSpace s2)" and m3eq: "m3 = (cap, s3)"
    by (auto simp: cmatch.simps [abs_def])
  from run_Cons_mem [OF r3] obtain m4 where m4: "m4 \<in> set (step (GroupLazyStar 1 Dot) (cap, s3))"
    and r4: "(cap', r) \<in> set (run ?t4 m4)"
    unfolding m3eq by blast
  from m4 obtain k r' where k': "(k, r') \<in> set (lazy (cmatch Dot) s3)" and m4eq: "m4 = (Some k, r')"
    by auto
  from r4 have cap: "cap' = Some k" and rr: "r = r'" and la: "list_ex (\<lambda>a. altMatch a r) alts"
    unfolding m4eq by (auto split: if_splits)
  from k' rr have k: "(k, r) \<in> set (lazy (cmatch Dot) s3)" by simp
  note s1 = s1 [unfolded s1eq]
  from greedy_sound [OF s1] obtain k1 where k1: "s = k1 @ c # cs" "list_all isWhiteSpace k1"
    by blast
  from greedy_sound [OF s2] obtain k2 where k2: "cs = k2 @ s2" "list_all (cmatch ColonNewline) k2"
    by blast
  from greedy_sound [OF s3] obtain k3 where k3: "s2 = k3 @ s3" "list_all isWhiteSpace k3"
    by blast
  from lazy_sound [OF k] have kk: "s3 = k @ r" "list_all (cmatch Dot) k"
    by simp_all
  let ?sep = "k1 @ c # k2 @ k3"
  have "s = ?sep @ k @ r" using k1 k2 k3 kk by simp
  moreover have "separator ?sep"
  proof -
    have nl: "isWhiteSpace (CHR 0x0A)" by (simp add: isWhiteSpace_def)
    have a1: "list_all (\<lambda>c. isWhiteSpace c \<or> c = CHR '':'') k1"
      using k1 by (simp add: list_all_iff)
    have a2: "list_all (\<lambda>c. isWhiteSpace c \<or> c = CHR '':'') k2"
      using k2 nl by (auto simp: list_all_iff)
    have a3: "list_all (\<lambda>c. isWhiteSpace c \<or> c = CHR '':'') k3"
      using k3 by (simp add: list_all_iff)
    have a4: "isWhiteSpace c \<or> c = CHR '':''" using c nl by blast
    have "list_ex (\<lambda>c. c = CHR '':'' \<or> c = CHR 0x0A) ?sep"
      using c by (simp add: list_ex_iff)
    with a1 a2 a3 a4 show ?thesis by (simp add: separator_def)
  qed
  moreover have "list_all (\<lambda>c. \<not> isLineTerminator c) k"
    using kk by (simp add: list_all_iff)
  ultimately show ?thesis using cap la by blast
qed

lemma set_trim: "set (trim s) \<subseteq> set s"
proof -
  have "set (trim s) \<subseteq> set (dropWhile isWhiteSpace s)"
    unfolding trim_def by (metis set_rev set_dropWhileD subsetI)
  also have "\<dots> \<subseteq> set s" by (meson set_dropWhileD subsetI)
  finally show ?thesis .
qed

lemma matchResult_Some:
  "matchResult m = Inr (Some x) \<Longrightarrow> \<exists>body rest. m = Some (Some body, rest) \<and> x = trim body"
  by (auto simp: matchResult_def split: option.splits prod.splits)

lemma pattern_sound:
  assumes "regexExec (map Atom as @ [Star SpaceClass, Plus ColonNewline, Star SpaceClass,
                                     GroupLazyStar 1 Dot, Lookahead alts]) txt = Some (cap, r)"
  shows "\<exists>pre hd' sep body. txt = pre @ hd' @ sep @ body @ r \<and> charsMatch as hd' \<and>
           length hd' = length as \<and> separator sep \<and> cap = Some body \<and>
           list_all (\<lambda>c. \<not> isLineTerminator c) body \<and> list_ex (\<lambda>a. altMatch a r) alts"
proof -
  let ?tl = "[Star SpaceClass, Plus ColonNewline, Star SpaceClass, GroupLazyStar 1 Dot,
              Lookahead alts]"
  from regexExec_Some [OF assms] obtain pre suf where
    tx: "txt = pre @ suf" and mem: "(cap, r) \<in> set (run (map Atom as @ ?tl) (None, suf))"
    by blast
  from mem have cm: "charsMatch as suf"
    and mem': "(cap, r) \<in> set (run ?tl (None, drop (length as) suf))"
    unfolding run_append run_atoms by (simp_all split: if_splits del: run.simps)
  from cm have len: "length as \<le> length suf" by (rule charsMatch_take)
  from cm have cm': "charsMatch as (take (length as) suf)"
    by (induction as suf rule: charsMatch.induct) simp_all
  from tail_sound [OF mem'] obtain sep body where
    d: "drop (length as) suf = sep @ body @ r" and rest: "separator sep" "cap = Some body"
      "list_all (\<lambda>c. \<not> isLineTerminator c) body" "list_ex (\<lambda>a. altMatch a r) alts"
    by blast
  have "suf = take (length as) suf @ drop (length as) suf" by simp
  with d tx have "txt = pre @ take (length as) suf @ sep @ body @ r" by simp
  moreover have "length (take (length as) suf) = length as" using len by simp
  ultimately show ?thesis using cm' rest by blast
qed

lemma pattern_no_match:
  assumes "\<not> headingOccurs h txt"
  shows "regexExec (map Atom (map Lit h) @ ns) txt = None"
proof (rule regexExec_None)
  fix suf assume "suffix suf txt"
  with assms have "\<not> charsMatch (map Lit h) suf"
    using headingOccurs_suffix by blast
  then show "run (map Atom (map Lit h) @ ns) (None, suf) = []"
    by (simp add: run_append run_atoms del: map_map)
qed


section \<open>Facts about the parsed patterns and the locator functions\<close>

lemma parseAtom_open: "parseAtom (CHR 0x28) = None"
  by (simp add: parseAtom_def syntaxCharacters_def)

lemma parseAtom_literal: "\<not> List.member syntaxCharacters c \<Longrightarrow> parseAtom c = Some (Lit c)"
  by (auto simp: parseAtom_def syntaxCharacters_def)

lemma parseAtoms_literal: "literalSource h \<Longrightarrow> parseAtoms h = Some (map Lit h)"
  by (induction h) (simp_all add: literalSource_def parseAtom_literal)

lemma parseSource_atoms: "parseAtoms h = Some as \<Longrightarrow> parseSource g h = Some (map Atom as, g)"
proof (induction h arbitrary: as)
  case Nil
  then show ?case by simp
next
  case (Cons c cs)
  from Cons.prems obtain a as' where a: "parseAtom c = Some a" "parseAtoms cs = Some as'"
    "as = a # as'"
    by (auto split: option.splits)
  from a(1) have "c \<noteq> CHR 0x28" using parseAtom_open by auto
  with a Cons.IH [OF a(2)] show ?case by simp
qed

lemma parseSource_groups:
  "parseSource g h = Some (ns, g') \<Longrightarrow>
     g \<le> g' \<and> (g' = g \<longrightarrow> (\<exists>as. ns = map Atom as))"
proof (induction g h arbitrary: ns g' rule: parseSource.induct)
  case (1 g)
  then show ?case by simp
next
  case (2 g c cs)
  show ?case
  proof (cases "c = CHR 0x28")
    case True
    with "2.prems" obtain close rest as ns' where
      d: "dropWhile (\<lambda>x. x \<noteq> CHR 0x29) cs = close # rest"
      and p: "parseAtoms (takeWhile (\<lambda>x. x \<noteq> CHR 0x29) cs) = Some as"
      and r: "parseSource (Suc g) rest = Some (ns', g')"
      by (auto split: list.splits option.splits)
    from "2.IH"(1) [OF True d p r] have "Suc g \<le> g'" by simp
    then show ?thesis by simp
  next
    case False
    with "2.prems" obtain a ns' where a: "parseAtom c = Some a"
      and r: "parseSource g cs = Some (ns', g')" and ns: "ns = Atom a # ns'"
      by (auto split: option.splits)
    from "2.IH"(2) [OF False a r] have "g \<le> g'" "g' = g \<longrightarrow> (\<exists>as. ns' = map Atom as)"
      by simp_all
    then show ?thesis using ns by (metis list.simps(9))
  qed
qed

lemma noCapturingGroup_atoms:
  assumes "noCapturingGroup h"
  shows "\<exists>as. parseSource 0 h = Some (map Atom as, 0)"
proof -
  from assms obtain ns where p: "parseSource 0 h = Some (ns, 0)"
    by (auto simp: noCapturingGroup_def split: option.splits)
  from parseSource_groups [OF p] obtain as where "ns = map Atom as" by blast
  with p show ?thesis by blast
qed

lemma literalSource_parse: "literalSource h \<Longrightarrow> parseSource 0 h = Some (map Atom (map Lit h), 0)"
  using parseAtoms_literal parseSource_atoms by blast

lemma literalSource_noCapturingGroup: "literalSource h \<Longrightarrow> noCapturingGroup h"
  by (simp add: noCapturingGroup_def literalSource_parse del: map_map)

lemma boundaryPattern_literal:
  assumes "list_all literalSource bs"
  shows "\<exists>alts. boundaryPattern bs = Some alts"
proof -
  have "\<exists>alts. those (map (\<lambda>b. case parseAtoms b of None \<Rightarrow> None
                               | Some as \<Rightarrow> Some (Chars (Lit (CHR 0x0A) # as))) bs) = Some alts"
    using assms by (induction bs) (auto simp: parseAtoms_literal)
  then show ?thesis by (auto simp: boundaryPattern_def)
qed

lemma sectionPattern_atoms:
  assumes "noCapturingGroup h"
  shows "\<exists>as. sectionPattern h =
           Some (map Atom as @ [Star SpaceClass, Plus ColonNewline, Star SpaceClass,
                   GroupLazyStar 1 Dot,
                   Lookahead [Chars [Lit (CHR 0x0A), UpperAZ, LowerAZ], EndOfInput]])"
  using noCapturingGroup_atoms [OF assms] by (auto simp: sectionPattern_def)

lemma boundariesPattern_atoms:
  assumes "noCapturingGroup h" and "boundariesPattern h bs = Some p"
  shows "\<exists>as alts. p = map Atom as @ [Star SpaceClass, Plus ColonNewline, Star SpaceClass,
                   GroupLazyStar 1 Dot, Lookahead alts]"
proof -
  from noCapturingGroup_atoms [OF assms(1)] obtain as where
    a: "parseSource 0 h = Some (map Atom as, 0)" by blast
  with assms(2) obtain alts where
    "p = map Atom as @ [Star SpaceClass, Plus ColonNewline, Star SpaceClass,
                   GroupLazyStar 1 Dot, Lookahead (alts @ [EndOfInput])]"
    by (auto simp: boundariesPattern_def split: option.splits)
  then show ?thesis by blast
qed

lemma matchResult_body:
  assumes "matchResult (regexExec (map Atom as @ [Star SpaceClass, Plus ColonNewline,
             Star SpaceClass, GroupLazyStar 1 Dot, Lookahead alts]) txt) = Inr (Some r)"
  shows "\<exists>body. r = trim body \<and> list_all (\<lambda>c. \<not> isLineTerminator c) body"
proof -
  from matchResult_Some [OF assms] obtain body rest where
    m: "regexExec (map Atom as @ [Star SpaceClass, Plus ColonNewline,
             Star SpaceClass, GroupLazyStar 1 Dot, Lookahead alts]) txt = Some (Some body, rest)"
    and r: "r = trim body"
    by blast
  from pattern_sound [OF m] r show ?thesis by auto
qed

lemma matchResult_no_error:
  "matchResult (regexExec (map Atom as @ [Star SpaceClass, Plus ColonNewline,
             Star SpaceClass, GroupLazyStar 1 Dot, Lookahead alts]) txt) \<noteq> Inl e"
proof -
  have "cap \<noteq> None" if "regexExec (map Atom as @ [Star SpaceClass, Plus ColonNewline,
             Star SpaceClass, GroupLazyStar 1 Dot, Lookahead alts]) txt = Some (cap, r)" for cap r
    using pattern_sound [OF that] by auto
  then show ?thesis
    by (auto simp: matchResult_def split: option.splits prod.splits)
qed

lemma extractSection_body:
  assumes "noCapturingGroup h" and "extractSection txt h = Inr (Some r)"
  shows "\<exists>body. r = trim body \<and> list_all (\<lambda>c. \<not> isLineTerminator c) body"
proof -
  from sectionPattern_atoms [OF assms(1)] obtain as where
    p: "sectionPattern h = Some (map Atom as @ [Star SpaceClass, Plus ColonNewline,
          Star SpaceClass, GroupLazyStar 1 Dot,
          Lookahead [Chars [Lit (CHR 0x0A), UpperAZ, LowerAZ], EndOfInput]])"
    by blast
  from assms(2) show ?thesis
    unfolding extractSection_def p option.case by (rule matchResult_body)
qed

lemma extractSectionWithBoundaries_body:
  assumes "noCapturingGroup h" and "extractSectionWithBoundaries txt h bs = Inr (Some r)"
  shows "\<exists>body. r = trim body \<and> list_all (\<lambda>c. \<not> isLineTerminator c) body"
proof -
  from assms(2) obtain p where p: "boundariesPattern h bs = Some p"
    and m: "matchResult (regexExec p txt) = Inr (Some r)"
    by (auto simp: extractSectionWithBoundaries_def split: option.splits)
  from boundariesPattern_atoms [OF assms(1) p] m show ?thesis
    using matchResult_body by blast
qed

lemma extractSection_no_error:
  assumes "noCapturingGroup h"
  shows "extractSection txt h \<noteq> Inl e"
proof -
  from sectionPattern_atoms [OF assms] obtain as where
    p: "sectionPattern h = Some (map Atom as @ [Star SpaceClass, Plus ColonNewline,
          Star SpaceClass, GroupLazyStar 1 Dot,
          Lookahead [Chars [Lit (CHR 0x0A), UpperAZ, LowerAZ], EndOfInput]])"
    by blast
  show ?thesis unfolding extractSection_def p option.case by (rule matchResult_no_error)
qed

lemma extractSectionWithBoundaries_no_error:
  assumes "noCapturingGroup h" and "boundaryPattern bs = Some alts"
  shows "extractSectionWithBoundaries txt h bs \<noteq> Inl e"
proof -
  from noCapturingGroup_atoms [OF assms(1)] obtain as where
    "parseSource 0 h = Some (map Atom as, 0)" by blast
  with assms(2) have p: "boundariesPattern h bs =
      Some (map Atom as @ [Star SpaceClass, Plus ColonNewline, Star SpaceClass,
              GroupLazyStar 1 Dot, Lookahead (alts @ [EndOfInput])])"
    by (simp add: boundariesPattern_def)
  show ?thesis unfolding extractSectionWithBoundaries_def p option.case
    by (rule matchResult_no_error)
qed

lemma no_newline_trim:
  "list_all (\<lambda>c. \<not> isLineTerminator c) body \<Longrightarrow> CHR 0x0A \<notin> set (trim body)"
proof -
  assume a: "list_all (\<lambda>c. \<not> isLineTerminator c) body"
  have "isLineTerminator (CHR 0x0A)" by (simp add: isLineTerminator_def)
  with a have "CHR 0x0A \<notin> set body" by (auto simp: list_all_iff)
  with set_trim [of body] show ?thesis by blast
qed

lemma extractSection_single_line:
  "noCapturingGroup h \<Longrightarrow> extractSection txt h = Inr (Some r) \<Longrightarrow> CHR 0x0A \<notin> set r"
  using extractSection_body no_newline_trim by blast

lemma extractSectionWithBoundaries_single_line:
  "noCapturingGroup h \<Longrightarrow> extractSectionWithBoundaries txt h bs = Inr (Some r) \<Longrightarrow>
   CHR 0x0A \<notin> set r"
  using extractSectionWithBoundaries_body no_newline_trim by blast

lemma extractSectionMultiple_cases:
  assumes "list_all noCapturingGroup hs"
  shows "extractSectionMultiple txt hs = Inr None \<or>
   (\<exists>h r. h \<in> set hs \<and> r \<noteq> [] \<and> extractSection txt h = Inr (Some r) \<and>
      extractSectionMultiple txt hs = Inr (Some r))"
  using assms
proof (induction hs)
  case Nil
  then show ?case by simp
next
  case (Cons h hs)
  then have h: "noCapturingGroup h" and hs: "list_all noCapturingGroup hs" by simp_all
  show ?case
  proof (cases "extractSection txt h")
    case (Inl e)
    then show ?thesis using extractSection_no_error [OF h] by blast
  next
    case (Inr v)
    show ?thesis
    proof (cases "truthy v")
      case True
      then obtain r where "v = Some r" "r \<noteq> []" by (cases v) auto
      with Inr show ?thesis by auto
    next
      case False
      with Inr Cons.IH [OF hs] show ?thesis by auto
    qed
  qed
qed


lemma boundaryLoop_none:
  assumes "\<forall>h\<in>set hs. extractSectionWithBoundaries txt h bs = Inr None"
  shows "boundaryLoop txt hs bs cur = Inr (if hs = [] then cur else None)"
  using assms
proof (induction hs arbitrary: cur)
  case Nil
  then show ?case by simp
next
  case (Cons h hs)
  then show ?case by (cases hs) simp_all
qed

lemma extractSectionMultiple_none:
  assumes "\<forall>h\<in>set hs. extractSection txt h = Inr None"
  shows "extractSectionMultiple txt hs = Inr None"
  using assms by (induction hs) simp_all

lemma extractSection_absent:
  assumes "literalSource h" and "\<not> headingOccurs h txt"
  shows "extractSection txt h = Inr None"
  using assms(2)
  by (simp add: extractSection_def sectionPattern_def literalSource_parse [OF assms(1)]
      pattern_no_match matchResult_def del: map_map)

lemma extractSectionWithBoundaries_absent:
  assumes "literalSource h" and "list_all literalSource bs" and "\<not> headingOccurs h txt"
  shows "extractSectionWithBoundaries txt h bs = Inr None"
proof -
  from boundaryPattern_literal [OF assms(2)] obtain alts where
    "boundaryPattern bs = Some alts" by blast
  with assms(3) show ?thesis
    by (simp add: extractSectionWithBoundaries_def boundariesPattern_def
        literalSource_parse [OF assms(1)] pattern_no_match matchResult_def del: map_map)
qed


section \<open>Facts about the filter\<close>

lemma splitOn_nonempty: "splitOn sep s \<noteq> []"
  by (induction s) (auto split: list.splits)

lemma splitOn_no_sep: "sep \<notin> set s \<Longrightarrow> splitOn sep s = [s]"
  by (induction s) auto

lemma splitOn_append_sep:
  "sep \<notin> set l \<Longrightarrow> splitOn sep (l @ sep # rest) = l # splitOn sep rest"
  by (induction l) auto

lemma splitOn_joinWith:
  "ls \<noteq> [] \<Longrightarrow> \<forall>l\<in>set ls. sep \<notin> set l \<Longrightarrow> splitOn sep (joinWith sep ls) = ls"
proof (induction sep ls rule: joinWith.induct)
  case (1 sep)
  then show ?case by simp
next
  case (2 sep l)
  then show ?case by (simp add: splitOn_no_sep)
next
  case (3 sep l m ls)
  then show ?case by (simp add: splitOn_append_sep)
qed

lemma splitOn_lines: "l \<in> set (splitOn sep s) \<Longrightarrow> sep \<notin> set l"
proof (induction s arbitrary: l)
  case Nil
  then show ?case by simp
next
  case (Cons c cs)
  show ?case
  proof (cases "c = sep")
    case True
    with Cons show ?thesis by auto
  next
    case False
    obtain x xs where sp: "splitOn sep cs = x # xs"
      using splitOn_nonempty [of sep cs] by (cases "splitOn sep cs") auto
    with False Cons.prems have "l = c # x \<or> l \<in> set xs" by simp
    moreover have "sep \<notin> set x" "\<forall>y\<in>set xs. sep \<notin> set y"
      using Cons.IH sp by simp_all
    ultimately show ?thesis using False by auto
  qed
qed

lemma str_includes_iff: "str_includes s sub \<longleftrightarrow> (\<exists>pre post. s = pre @ sub @ post)"
proof (induction s)
  case Nil
  then show ?case by auto
next
  case (Cons c cs)
  show ?case
  proof
    assume "str_includes (c # cs) sub"
    then consider "prefix sub (c # cs)" | "str_includes cs sub" by auto
    then show "\<exists>pre post. c # cs = pre @ sub @ post"
    proof cases
      case 1
      then obtain post where "c # cs = sub @ post" by (auto simp: prefix_def)
      then have "c # cs = [] @ sub @ post" by simp
      then show ?thesis by blast
    next
      case 2
      with Cons obtain pre post where "cs = pre @ sub @ post" by blast
      then have "c # cs = (c # pre) @ sub @ post" by simp
      then show ?thesis by blast
    qed
  next
    assume "\<exists>pre post. c # cs = pre @ sub @ post"
    then obtain pre post where e: "c # cs = pre @ sub @ post" by blast
    show "str_includes (c # cs) sub"
    proof (cases pre)
      case Nil
      with e have "prefix sub (c # cs)" by (simp add: prefix_def)
      then show ?thesis by simp
    next
      case (Cons p ps)
      with e have "cs = ps @ sub @ post" by simp
      with Cons.IH show ?thesis by auto
    qed
  qed
qed

lemma mentionsLate_occurrence:
  assumes "mentionsLate l"
  shows "\<exists>pre mid post. l = pre @ mid @ post \<and>
           (toLowerCase mid = ''late'' \<or> toLowerCase mid = ''penalty'')"
proof -
  from assms obtain sub where sub: "sub = ''late'' \<or> sub = ''penalty''"
    and inc: "str_includes (map lowerChar l) sub"
    unfolding mentionsLate_def toLowerCase_def by blast
  from inc obtain p q where "map lowerChar l = p @ sub @ q"
    by (auto simp: str_includes_iff)
  then obtain pre mq where l1: "l = pre @ mq" and mq: "sub @ q = map lowerChar mq"
    unfolding map_eq_append_conv by blast
  from mq obtain mid post where "mq = mid @ post" "sub = map lowerChar mid"
    unfolding append_eq_map_conv by blast
  with l1 sub show ?thesis unfolding toLowerCase_def by metis
qed

lemma mentionsLate_empty: "\<not> mentionsLate []"
  by (simp add: mentionsLate_def toLowerCase_def)

lemma joinWith_empty_iff:
  "joinWith sep ls = [] \<Longrightarrow> ls = [] \<or> [] \<in> set ls"
  by (induction sep ls rule: joinWith.induct) auto

lemma filterLatePolicy_empty_iff:
  "filterLatePolicy txt = [] \<longleftrightarrow> filter mentionsLate (splitOn (CHR 0x0A) txt) = []"
proof
  assume "filterLatePolicy txt = []"
  then have "filter mentionsLate (splitOn (CHR 0x0A) txt) = [] \<or>
             [] \<in> set (filter mentionsLate (splitOn (CHR 0x0A) txt))"
    unfolding filterLatePolicy_def by (rule joinWith_empty_iff)
  then show "filter mentionsLate (splitOn (CHR 0x0A) txt) = []"
    using mentionsLate_empty by auto
next
  assume "filter mentionsLate (splitOn (CHR 0x0A) txt) = []"
  then show "filterLatePolicy txt = []" by (simp add: filterLatePolicy_def)
qed

lemma filterLatePolicy_lines:
  assumes "filterLatePolicy txt \<noteq> []"
  shows "splitOn (CHR 0x0A) (filterLatePolicy txt) = filter mentionsLate (splitOn (CHR 0x0A) txt)"
proof -
  let ?kept = "filter mentionsLate (splitOn (CHR 0x0A) txt)"
  have "?kept \<noteq> []" using assms by (simp add: filterLatePolicy_empty_iff)
  moreover have "\<forall>l\<in>set ?kept. CHR 0x0A \<notin> set l" using splitOn_lines by auto
  ultimately show ?thesis unfolding filterLatePolicy_def by (rule splitOn_joinWith)
qed

lemma filterLatePolicy_idem: "filterLatePolicy (filterLatePolicy txt) = filterLatePolicy txt"
proof (cases "filterLatePolicy txt = []")
  case True
  have "filterLatePolicy [] = []" by (simp add: filterLatePolicy_def mentionsLate_empty)
  with True show ?thesis by simp
next
  case False
  have "filterLatePolicy (filterLatePolicy txt) =
        joinWith (CHR 0x0A) (filter mentionsLate (splitOn (CHR 0x0A) (filterLatePolicy txt)))"
    by (simp add: filterLatePolicy_def)
  also have "\<dots> = joinWith (CHR 0x0A) (filter mentionsLate (splitOn (CHR 0x0A) txt))"
    by (simp add: filterLatePolicy_lines [OF False])
  finally show ?thesis by (simp add: filterLatePolicy_def)
qed

lemma filterLatePolicy_single_line:
  "CHR 0x0A \<notin> set r \<Longrightarrow> filterLatePolicy r = (if mentionsLate r then r else [])"
  by (simp add: filterLatePolicy_def splitOn_no_sep)


section \<open>Facts about the locator and the extraction loop\<close>

lemma dropWhile_self: "xs = [] \<or> \<not> P (hd xs) \<Longrightarrow> dropWhile P xs = xs"
  by (cases xs) auto

lemma dropWhile_hd: "dropWhile P xs = [] \<or> \<not> P (hd (dropWhile P xs))"
  using hd_dropWhile by blast

lemma last_dropWhile: "dropWhile P xs \<noteq> [] \<Longrightarrow> last (dropWhile P xs) = last xs"
  by (induction xs) (auto split: if_splits)

lemma trim_idem: "trim (trim s) = trim s"
proof -
  let ?d = "dropWhile isWhiteSpace s"
  let ?e = "dropWhile isWhiteSpace (rev ?d)"
  have t: "trim s = rev ?e" by (simp add: trim_def)
  have 1: "dropWhile isWhiteSpace (rev ?e) = rev ?e"
  proof (cases "?e = []")
    case True
    have "dropWhile isWhiteSpace (rev []) = rev ([] :: string)" by simp
    then show ?thesis by (simp only: True)
  next
    case False
    then have "rev ?d \<noteq> []" by (metis dropWhile.simps(1))
    then have dne: "?d \<noteq> []" by simp
    have "hd (rev ?e) = last ?e" using False by (simp add: hd_rev)
    also have "\<dots> = last (rev ?d)" using False by (rule last_dropWhile)
    also have "\<dots> = hd ?d" using dne by (simp add: last_rev)
    finally have "hd (rev ?e) = hd ?d" .
    moreover have "\<not> isWhiteSpace (hd ?d)" using dne hd_dropWhile by blast
    ultimately show ?thesis by (intro dropWhile_self) simp
  qed
  have 2: "dropWhile isWhiteSpace ?e = ?e"
    by (intro dropWhile_self) (use dropWhile_hd in blast)
  show ?thesis unfolding t
    by (subst trim_def) (simp only: 1 rev_rev_ident 2)
qed


lemma extractSection_trimmed:
  "noCapturingGroup h \<Longrightarrow> extractSection txt h = Inr (Some r) \<Longrightarrow> trim r = r"
  using extractSection_body [of h "txt" r] trim_idem by auto

lemma extractSectionWithBoundaries_trimmed:
  "noCapturingGroup h \<Longrightarrow> extractSectionWithBoundaries txt h bs = Inr (Some r) \<Longrightarrow> trim r = r"
  using extractSectionWithBoundaries_body [of h "txt" bs r] trim_idem by auto

lemma extractSectionMultiple_good:
  assumes "list_all noCapturingGroup hs"
  shows "\<exists>v. extractSectionMultiple txt hs = Inr v \<and> goodBody v"
proof -
  from extractSectionMultiple_cases [OF assms, of "txt"]
  consider "extractSectionMultiple txt hs = Inr None"
    | h r where "h \<in> set hs" "r \<noteq> []" "extractSection txt h = Inr (Some r)"
        "extractSectionMultiple txt hs = Inr (Some r)"
    by blast
  then show ?thesis
  proof cases
    case 1
    then show ?thesis by (simp add: goodBody_def)
  next
    case 2
    from 2(1) assms have h: "noCapturingGroup h" by (simp add: list_all_iff)
    from h 2(3) have "trim r = r" "CHR 0x0A \<notin> set r"
      by (rule extractSection_trimmed, rule extractSection_single_line)
    with 2 show ?thesis by (simp add: goodBody_def nonEmptyTrimmed_def)
  qed
qed

lemma boundaryLoop_good:
  assumes "list_all noCapturingGroup hs" and "boundaryPattern bs = Some alts"
  shows "\<exists>v. boundaryLoop txt hs bs cur = Inr v \<and> (truthy v \<longrightarrow> v = cur \<or> goodBody v)"
  using assms(1)
proof (induction hs arbitrary: cur)
  case Nil
  then show ?case by simp
next
  case (Cons h hs)
  then have h: "noCapturingGroup h" and hs: "list_all noCapturingGroup hs" by simp_all
  show ?case
  proof (cases "extractSectionWithBoundaries txt h bs")
    case (Inl e)
    then show ?thesis using extractSectionWithBoundaries_no_error [OF h assms(2)] by blast
  next
    case (Inr v)
    show ?thesis
    proof (cases "truthy v")
      case True
      then obtain r where v: "v = Some r" "r \<noteq> []" by (cases v) auto
      with Inr h have "trim r = r" "CHR 0x0A \<notin> set r"
        using extractSectionWithBoundaries_trimmed extractSectionWithBoundaries_single_line
        by blast+
      with v have "goodBody v" by (simp add: goodBody_def nonEmptyTrimmed_def)
      with Inr True show ?thesis by simp
    next
      case False
      from Cons.IH [OF hs, of v] obtain w where
        "boundaryLoop txt hs bs v = Inr w" "truthy w \<longrightarrow> w = v \<or> goodBody w"
        by blast
      with Inr False show ?thesis by auto
    qed
  qed
qed

lemma locate_good:
  assumes "list_all noCapturingGroup (case headings ps of None \<Rightarrow> [] | Some h \<Rightarrow> h)"
    and "case boundaries ps of None \<Rightarrow> True | Some bs \<Rightarrow> boundaryPattern bs \<noteq> None"
  shows "\<exists>v. locate txt ps = Inr v \<and> goodBody v"
proof (cases "boundaries ps")
  case None
  then show ?thesis using extractSectionMultiple_good [OF assms(1)] by (simp add: locate_def)
next
  case (Some bs)
  let ?hs = "case headings ps of None \<Rightarrow> [] | Some h \<Rightarrow> h"
  from assms(2) Some obtain alts where alts: "boundaryPattern bs = Some alts" by auto
  from boundaryLoop_good [OF assms(1) alts, of "txt" None] obtain v where
    v: "boundaryLoop txt ?hs bs None = Inr v" "truthy v \<longrightarrow> v = None \<or> goodBody v"
    by blast
  show ?thesis
  proof (cases "truthy v")
    case True
    with v have "goodBody v" by (auto simp: goodBody_def)
    with v True Some show ?thesis by (simp add: locate_def)
  next
    case False
    with v Some have "locate txt ps = extractSectionMultiple txt ?hs"
      by (simp add: locate_def)
    then show ?thesis using extractSectionMultiple_good [OF assms(1)] by simp
  qed
qed

lemma postFilter_other:
  "section \<noteq> ''Late Policy'' \<Longrightarrow> postFilter section v = v"
  by (cases v) (simp_all add: postFilter_def)

lemma postFilter_late:
  assumes "goodBody v"
  shows "postFilter ''Late Policy'' v = None \<or> postFilter ''Late Policy'' v = Some [] \<or>
         (\<exists>r. postFilter ''Late Policy'' v = Some r \<and> nonEmptyTrimmed r)"
proof (cases v)
  case None
  then show ?thesis by (simp add: postFilter_def)
next
  case (Some r)
  with assms have r: "nonEmptyTrimmed r" "CHR 0x0A \<notin> set r" by (simp_all add: goodBody_def)
  then have "r \<noteq> []" by (simp add: nonEmptyTrimmed_def)
  with Some r have "postFilter ''Late Policy'' v = Some (if mentionsLate r then r else [])"
    by (simp add: postFilter_def filterLatePolicy_single_line)
  with r show ?thesis by auto
qed


section \<open>Facts about the acquisition\<close>

lemma convertedPages_append [simp]:
  "convertedPages (es @ fs) = convertedPages es @ convertedPages fs"
  by (induction es rule: convertedPages.induct) simp_all

lemma recognizedPaths_append [simp]:
  "recognizedPaths (es @ fs) = recognizedPaths es @ recognizedPaths fs"
  by (induction es rule: recognizedPaths.induct) simp_all

lemma ocrLoop_sound:
  "i \<le> Suc n \<Longrightarrow>
   \<exists>es k. trace (snd (ocrLoop en i n acc w)) = trace w @ es \<and> i \<le> k \<and> k \<le> Suc n \<and>
     convertedPages es = [i..<k] \<and>
     (\<forall>t. fst (ocrLoop en i n acc w) = Inr t \<longrightarrow>
        k = Suc n \<and> recognizedPaths es = map (pagePath en) [i..<Suc n] \<and>
        t = acc @ concat (map (\<lambda>j. pageText en j @ [CHR 0x0A]) [i..<Suc n]))"
proof (induction en i n acc w rule: ocrLoop.induct)
  case (1 en i n acc w)
  show ?case
  proof (cases "i \<le> n")
    case False
    with "1.prems" have "i = Suc n" by simp
    with False have "ocrLoop en i n acc w = (Inr acc, w)"
      by (subst ocrLoop.simps) simp
    with \<open>i = Suc n\<close> show ?thesis by simp
  next
    case True
    show ?thesis
    proof (cases "converter en i")
      case (Inl e)
      with True have "ocrLoop en i n acc w = (Inl e, emit (Convert i) w)"
        by (subst ocrLoop.simps) simp
      then have "trace (snd (ocrLoop en i n acc w)) = trace w @ [Convert i] \<and> i \<le> Suc i \<and>
          Suc i \<le> Suc n \<and> convertedPages [Convert i] = [i..<Suc i] \<and>
          (\<forall>t. fst (ocrLoop en i n acc w) \<noteq> Inr t)"
        using True by (simp add: emit_def)
      then show ?thesis by blast
    next
      case (Inr p)
      let ?w1 = "(emit (Convert i) w)\<lparr>files := insert p (files w)\<rparr>"
      show ?thesis
      proof (cases "recognize en i")
        case (Inl e)
        with True Inr have "ocrLoop en i n acc w = (Inl e, emit (Recognize p) ?w1)"
          by (subst ocrLoop.simps) simp
        then have "trace (snd (ocrLoop en i n acc w)) = trace w @ [Convert i, Recognize p] \<and>
            i \<le> Suc i \<and> Suc i \<le> Suc n \<and> convertedPages [Convert i, Recognize p] = [i..<Suc i] \<and>
            (\<forall>t. fst (ocrLoop en i n acc w) \<noteq> Inr t)"
          using True by (simp add: emit_def)
        then show ?thesis by blast
      next
        case (Inr t)
        let ?w3 = "(emit (Unlink p) (emit (Recognize p) ?w1))\<lparr>files := files (emit (Recognize p) ?w1) - {p}\<rparr>"
        have u: "unlink p (emit (Recognize p) ?w1) = (Inr (), ?w3)"
          by (simp add: unlink_def emit_def)
        have step: "ocrLoop en i n acc w = ocrLoop en (i + 1) n (acc @ t @ [CHR 0x0A]) ?w3"
          using True \<open>converter en i = Inr p\<close> Inr u
          by (subst ocrLoop.simps) (simp del: ocrLoop.simps)
        have tr3: "trace ?w3 = trace w @ [Convert i, Recognize p, Unlink p]"
          by (simp add: emit_def)
        from "1.IH" [OF True \<open>converter en i = Inr p\<close> refl Inr u [symmetric] refl] True
        obtain es k where ih: "trace (snd (ocrLoop en (i + 1) n (acc @ t @ [CHR 0x0A]) ?w3)) = trace ?w3 @ es"
          "i + 1 \<le> k" "k \<le> Suc n" "convertedPages es = [i + 1..<k]"
          "\<forall>t'. fst (ocrLoop en (i + 1) n (acc @ t @ [CHR 0x0A]) ?w3) = Inr t' \<longrightarrow>
             k = Suc n \<and> recognizedPaths es = map (pagePath en) [i + 1..<Suc n] \<and>
             t' = (acc @ t @ [CHR 0x0A]) @ concat (map (\<lambda>j. pageText en j @ [CHR 0x0A]) [i + 1..<Suc n])"
          by auto
        let ?es = "[Convert i, Recognize p, Unlink p] @ es"
        have a: "trace (snd (ocrLoop en i n acc w)) = trace w @ ?es"
          using ih(1) tr3 step by simp
        have b: "convertedPages ?es = [i..<k]"
          using ih(2,4) by (simp add: upt_conv_Cons)
        have pt: "pageText en i = t" "pagePath en i = p"
          using Inr \<open>converter en i = Inr p\<close> by (simp_all add: pageText_def pagePath_def)
        have up: "[i..<Suc n] = i # [i + 1..<Suc n]"
          using True by (simp add: upt_conv_Cons)
        have c: "\<forall>t'. fst (ocrLoop en i n acc w) = Inr t' \<longrightarrow>
             k = Suc n \<and> recognizedPaths ?es = map (pagePath en) [i..<Suc n] \<and>
             t' = acc @ concat (map (\<lambda>j. pageText en j @ [CHR 0x0A]) [i..<Suc n])"
          using ih(5) unfolding step up by (simp add: pt)
        from a b c ih(2,3) show ?thesis
          by (intro exI [of _ ?es] exI [of _ k]) simp
      qed
    qed
  qed
qed

lemma extractTextFromPDF_Inr:
  assumes "extractTextFromPDF en p w = (Inr t, w1)"
  shows "p \<in> files w \<and> (\<exists>d. pdfParse en = Inr d \<and> data_text d = t) \<and>
         w1 = emit PdfParse (emit (ReadFile p) w)"
  using assms
  by (auto simp: extractTextFromPDF_def readFile_def split: if_splits sum.splits)

lemma extractTextWithOCR_sound:
  assumes "p \<in> files w" and "pdfParse en = Inr d"
  shows "\<exists>es k. trace (snd (extractTextWithOCR en p w)) =
             trace w @ [FromPath p, ReadFile p, PdfParse] @ es \<and> k \<le> Suc (numpages d) \<and>
           convertedPages es = [1..<k] \<and>
           (\<forall>t. fst (extractTextWithOCR en p w) = Inr t \<longrightarrow>
              k = Suc (numpages d) \<and>
              recognizedPaths es = map (pagePath en) [1..<Suc (numpages d)] \<and>
              t = concat (map (\<lambda>j. pageText en j @ [CHR 0x0A]) [1..<Suc (numpages d)]))"
proof -
  let ?w = "emit PdfParse (emit (ReadFile p) (emit (FromPath p) w))"
  have e: "extractTextWithOCR en p w = ocrLoop en 1 (numpages d) [] ?w"
    using assms by (simp add: extractTextWithOCR_def readFile_def emit_def del: ocrLoop.simps)
  have tr: "trace ?w = trace w @ [FromPath p, ReadFile p, PdfParse]"
    by (simp add: emit_def)
  from ocrLoop_sound [of 1 "numpages d" en "[]" ?w] obtain es k where
    "trace (snd (ocrLoop en 1 (numpages d) [] ?w)) = trace ?w @ es" "k \<le> Suc (numpages d)"
    "convertedPages es = [1..<k]"
    "\<forall>t. fst (ocrLoop en 1 (numpages d) [] ?w) = Inr t \<longrightarrow>
        k = Suc (numpages d) \<and> recognizedPaths es = map (pagePath en) [1..<Suc (numpages d)] \<and>
        t = [] @ concat (map (\<lambda>j. pageText en j @ [CHR 0x0A]) [1..<Suc (numpages d)])"
    by auto
  then show ?thesis unfolding e tr by (intro exI [of _ es] exI [of _ k]) simp
qed


section \<open>Scenario A: the late policy of an inline homework line\<close>

text \<open>
  C1. The spec's scenario A expects the key "Late Policy" to hold
  "Late submissions incur a 10% penalty per day." for a text with the line
  "Homework: Late submissions incur a 10% penalty per day." followed by an attendance
  line. On that text the handler's loop stores \<open>null\<close> under "Late Policy": the only
  heading of the entry is "Homework:" with its colon, and the pattern asks for one
  more colon or newline after the heading before the body, which the space after the
  colon is not.
\<close>

theorem scenario_A_late_policy_null:
  "extractSections
     ''Homework: Late submissions incur a 10% penalty per day.\<newline>Attendance: ...'' =
   Inr [(''Late Policy'', None), (''Grading Policy'', None), (''Grading Weights'', None)]"
  by code_simp


section \<open>A boundary line directly after the heading\<close>

text \<open>
  C3. The claim is that a string returned by the locator with boundaries excludes
  the earliest boundary line after the heading and everything after it. When the
  boundary line follows the heading line directly, the separator \<open>\s*[:\n]+\s*\<close>
  consumes the newline that the lookahead for a newline and a boundary needs, and the
  boundary line itself is returned as the body, by the function and, for the
  catalog, under the key "Grading Policy" of the result.
\<close>

theorem boundary_line_returned_as_body:
  "extractSectionWithBoundaries ''Grading Scale:\<newline>Attendance is required''
     ''Grading Scale:'' [''Attendance'', ''Course Policies''] =
   Inr (Some ''Attendance is required'') \<and>
   extractSections ''Grading Scale:\<newline>Attendance is required'' =
   Inr [(''Late Policy'', None), (''Grading Policy'', Some ''Attendance is required''),
        (''Grading Weights'', None)]"
  by code_simp


section \<open>The default boundary under the flag i\<close>

text \<open>
  C8. The claim is that without boundaries the body ends at the next line that
  starts with a capitalized word followed by a lowercase word, or at the end of the
  text when no such line follows. In the text below no newline is followed by a
  capital and a small letter, yet the body stops before the line "xy": the pattern is
  compiled with the flag \<open>i\<close>, under which the classes \<open>[A-Z]\<close> and \<open>[a-z]\<close> of the
  default boundary match letters of either case. The second text shows the same
  through the catalog: the pass without boundaries gives "Grading Policy" the body
  "A" although the line "xy" is no heading-like line.
\<close>

theorem default_boundary_fires_on_lower_case_line:
  "\<not> spec_headingLikeLineFollows ''Homework: abc\<newline>xy'' \<and>
   extractSection ''Homework: abc\<newline>xy'' ''Homework'' = Inr (Some ''abc'') \<and>
   \<not> spec_headingLikeLineFollows ''Grading Scale: A\<newline>xy'' \<and>
   extractSections ''Grading Scale: A\<newline>xy'' =
   Inr [(''Late Policy'', None), (''Grading Policy'', Some ''A''), (''Grading Weights'', None)]"
  by code_simp


section \<open>The body never spans lines\<close>





section \<open>Absent sections\<close>

text \<open>
  C10. When none of the headings of a catalog entry occurs in the text (case
  ignored), \<open>extractSectionMultiple\<close> and the locator of the handler, with or without
  boundaries, return \<open>null\<close>: the result is \<open>Inr None\<close>, no error is raised.
\<close>

theorem locate_null_when_no_heading_occurs:
  assumes "list_all literalSource hs"
    and "list_all literalSource (case boundaries ps of None \<Rightarrow> [] | Some bs \<Rightarrow> bs)"
    and "\<forall>h\<in>set hs. \<not> headingOccurs h txt"
    and "headings ps = Some hs"
  shows "extractSectionMultiple txt hs = Inr None \<and> locate txt ps = Inr None"
proof -
  have lit: "\<forall>h\<in>set hs. literalSource h"
    using assms(1) by (simp add: list_all_iff)
  have m: "extractSectionMultiple txt hs = Inr None"
    using assms(3) lit by (intro extractSectionMultiple_none) (simp add: extractSection_absent)
  have "boundaryLoop txt hs bs None = Inr None" if "boundaries ps = Some bs" for bs
  proof -
    from that assms(2) have "list_all literalSource bs" by simp
    with assms(3) lit have "\<forall>h\<in>set hs. extractSectionWithBoundaries txt h bs = Inr None"
      by (simp add: extractSectionWithBoundaries_absent)
    from boundaryLoop_none [OF this, of None] show ?thesis by simp
  qed
  with m assms(4) show ?thesis
    by (simp add: locate_def split: option.splits)
qed

theorem locate_null_when_no_heading_occurs_witness:
  "list_all literalSource [''Grading Scale:'', ''Grading Scale''] \<and>
   list_all literalSource [''Attendance'', ''Course Policies''] \<and>
   \<not> headingOccurs ''Grading Scale:'' ''Attendance: yes'' \<and>
   \<not> headingOccurs ''Grading Scale'' ''Attendance: yes'' \<and>
   extractSectionMultiple ''Attendance: yes'' [''Grading Scale:'', ''Grading Scale''] = Inr None \<and>
   locate ''Attendance: yes''
     \<lparr>headings = Some [''Grading Scale:'', ''Grading Scale''],
      boundaries = Some [''Attendance'', ''Course Policies''], filter_name = None\<rparr> = Inr None"
proof -
  let ?ps = "\<lparr>headings = Some [''Grading Scale:'', ''Grading Scale''],
      boundaries = Some [''Attendance'', ''Course Policies''], filter_name = None\<rparr>"
  have h1: "list_all literalSource [''Grading Scale:'', ''Grading Scale'']" by code_simp
  have h2: "list_all literalSource [''Attendance'', ''Course Policies'']" by code_simp
  have h2': "list_all literalSource (case boundaries ?ps of None \<Rightarrow> [] | Some bs \<Rightarrow> bs)"
    using h2 by simp
  have h3: "\<not> headingOccurs ''Grading Scale:'' ''Attendance: yes''" by code_simp
  have h4: "\<not> headingOccurs ''Grading Scale'' ''Attendance: yes''" by code_simp
  have h5: "\<forall>h\<in>set [''Grading Scale:'', ''Grading Scale'']. \<not> headingOccurs h ''Attendance: yes''"
    using h3 h4 by simp
  have h6: "headings ?ps = Some [''Grading Scale:'', ''Grading Scale'']" by simp
  from locate_null_when_no_heading_occurs [OF h1 h2' h5 h6] h1 h2 h3 h4 show ?thesis by blast
qed


section \<open>What the late-policy filter keeps\<close>

text \<open>
  C9. The output of \<open>filterLatePolicy\<close> is the empty string when no line is kept;
  otherwise its lines are lines of the input in their order (a subsequence of the
  input's lines) and each contains "late" or "penalty" when case is ignored. Applying
  the filter to its own output changes nothing.
\<close>

theorem filterLatePolicy_keeps_late_lines:
  "(filterLatePolicy txt = [] \<or>
    (subseq (splitOn (CHR 0x0A) (filterLatePolicy txt)) (splitOn (CHR 0x0A) txt) \<and>
     (\<forall>l\<in>set (splitOn (CHR 0x0A) (filterLatePolicy txt)).
        \<exists>pre mid post. l = pre @ mid @ post \<and>
          (toLowerCase mid = ''late'' \<or> toLowerCase mid = ''penalty'')))) \<and>
   filterLatePolicy (filterLatePolicy txt) = filterLatePolicy txt"
proof (cases "filterLatePolicy txt = []")
  case True
  then show ?thesis using filterLatePolicy_idem by blast
next
  case False
  note lines = filterLatePolicy_lines [OF False]
  have "subseq (splitOn (CHR 0x0A) (filterLatePolicy txt)) (splitOn (CHR 0x0A) txt)"
    unfolding lines by simp
  moreover have "\<forall>l\<in>set (splitOn (CHR 0x0A) (filterLatePolicy txt)).
        \<exists>pre mid post. l = pre @ mid @ post \<and>
          (toLowerCase mid = ''late'' \<or> toLowerCase mid = ''penalty'')"
    unfolding lines using mentionsLate_occurrence by simp
  ultimately show ?thesis using filterLatePolicy_idem by blast
qed

theorem filterLatePolicy_keeps_late_lines_witness:
  "filterLatePolicy ''a\<newline>LATE x\<newline>b\<newline>Penalty'' = ''LATE x\<newline>Penalty'' \<and>
   subseq (splitOn (CHR 0x0A) (filterLatePolicy ''a\<newline>LATE x\<newline>b\<newline>Penalty''))
     (splitOn (CHR 0x0A) ''a\<newline>LATE x\<newline>b\<newline>Penalty'') \<and>
   filterLatePolicy (filterLatePolicy ''a\<newline>LATE x\<newline>b\<newline>Penalty'') =
     filterLatePolicy ''a\<newline>LATE x\<newline>b\<newline>Penalty''"
proof -
  have e: "filterLatePolicy ''a\<newline>LATE x\<newline>b\<newline>Penalty'' = ''LATE x\<newline>Penalty''"
    by code_simp
  then have ne: "filterLatePolicy ''a\<newline>LATE x\<newline>b\<newline>Penalty'' \<noteq> []" by simp
  from filterLatePolicy_keeps_late_lines [of "''a\<newline>LATE x\<newline>b\<newline>Penalty''"] ne e
  show ?thesis by blast
qed


section \<open>The shape of the extraction result\<close>

text \<open>
  C2, as stated: every value of the result is a non-empty trimmed string or \<open>null\<close>,
  never the empty string. It fails for "Late Policy": when the located body mentions
  neither "late" nor "penalty" the filter removes its only line and the empty string
  is stored.
\<close>

theorem extraction_result_counterexample:
  "extractSections ''Homework:: see portal'' =
     Inr [(''Late Policy'', Some []), (''Grading Policy'', None), (''Grading Weights'', None)]"
  by code_simp

text \<open>
  C2, amended: for every text the result holds the three catalog keys once each, in
  catalog order. The values of "Grading Policy" and "Grading Weights" are \<open>null\<close> or a
  non-empty trimmed string; the value of "Late Policy" is \<open>null\<close>, a non-empty trimmed
  string, or the empty string.
\<close>

theorem extraction_result_shape:
  "\<exists>a b c. extractSections txt =
       Inr [(''Late Policy'', a), (''Grading Policy'', b), (''Grading Weights'', c)] \<and>
     (a = None \<or> a = Some [] \<or> (\<exists>r. a = Some r \<and> nonEmptyTrimmed r)) \<and>
     (b = None \<or> (\<exists>r. b = Some r \<and> nonEmptyTrimmed r)) \<and>
     (c = None \<or> (\<exists>r. c = Some r \<and> nonEmptyTrimmed r))"
proof -
  let ?p1 = "\<lparr>headings = Some [''Homework:''], boundaries = None,
              filter_name = Some ''late_policy''\<rparr>"
  let ?p2 = "\<lparr>headings = Some [''Grading Scale:'', ''Grading Scale''],
              boundaries = Some [''Attendance'', ''Course Policies''], filter_name = None\<rparr>"
  let ?p3 = "\<lparr>headings = Some [''Grade Evaluation:'', ''Grade Evaluation'', ''Graded Work:'',
                               ''Graded Work''],
              boundaries = Some [''Grading Scale''], filter_name = None\<rparr>"
  have g1: "list_all noCapturingGroup [''Homework:'']" by code_simp
  have g2: "list_all noCapturingGroup [''Grading Scale:'', ''Grading Scale'']" by code_simp
  have g3: "list_all noCapturingGroup [''Grade Evaluation:'', ''Grade Evaluation'',
              ''Graded Work:'', ''Graded Work'']" by code_simp
  have b2: "boundaryPattern [''Attendance'', ''Course Policies''] \<noteq> None" by code_simp
  have b3: "boundaryPattern [''Grading Scale''] \<noteq> None" by code_simp
  from locate_good [of ?p1 "txt"] g1 obtain v1 where
    v1: "locate txt ?p1 = Inr v1" "goodBody v1"
    by auto
  from locate_good [of ?p2 "txt"] g2 b2 obtain v2 where
    v2: "locate txt ?p2 = Inr v2" "goodBody v2"
    by auto
  from locate_good [of ?p3 "txt"] g3 b3 obtain v3 where
    v3: "locate txt ?p3 = Inr v3" "goodBody v3"
    by auto
  have ne: "''Grading Policy'' \<noteq> ''Late Policy''" "''Grading Weights'' \<noteq> ''Late Policy''"
    "''Late Policy'' \<noteq> ''Grading Policy''" "''Late Policy'' \<noteq> ''Grading Weights''"
    "''Grading Policy'' \<noteq> ''Grading Weights''"
    by simp_all
  have "extractSections txt =
     Inr [(''Late Policy'', postFilter ''Late Policy'' v1), (''Grading Policy'', v2),
          (''Grading Weights'', v3)]"
    unfolding extractSections_def sections_def
    by (simp only: sectionsLoop.simps v1 v2 v3 sum.case setProperty.simps ne if_False
        postFilter_other [OF ne(1)] postFilter_other [OF ne(2)])
  moreover note postFilter_late [OF v1(2)]
  moreover from v2(2) have "v2 = None \<or> (\<exists>r. v2 = Some r \<and> nonEmptyTrimmed r)"
    by (auto simp: goodBody_def)
  moreover from v3(2) have "v3 = None \<or> (\<exists>r. v3 = Some r \<and> nonEmptyTrimmed r)"
    by (auto simp: goodBody_def)
  ultimately show ?thesis by blast
qed


section \<open>Clean-up of temporary files\<close>

text \<open>
  C4. The claim is that the uploaded temporary file is deleted on every exit path of
  the handler. The handler deletes it only at the end of the \<open>try\<close> block: for a corrupt
  document, on which \<open>pdfParse\<close> fails, the response is the status 500 and the uploaded
  file still exists.
\<close>

theorem upload_kept_after_failed_extraction:
  "postExtract corruptDocument (Some \<lparr>originalname = ''syllabus.pdf'', path = ''tmp/upload1''\<rparr>) uploaded =
  (Response 500 (ErrorBody ''Internal Server Error''),
   \<lparr>files = {''tmp/upload1''}, trace = [ReadFile ''tmp/upload1'', PdfParse]\<rparr>)"
  by (simp add: postExtract_def tryBlock_def acquireText_def extractTextFromPDF_def readFile_def
      emit_def corruptDocument_def uploaded_def)

text \<open>
  C5. The claim is that the image of a page is deleted after the recognition whether
  the recognition succeeds or fails. When the recognition of page 1 fails the loop
  is left through the \<open>catch\<close>: no \<open>unlink\<close> is called and the image of page 1 still
  exists.
\<close>

theorem page_image_kept_after_failed_recognition:
  "extractTextWithOCR unreadablePage ''tmp/upload1'' uploaded =
  (Inl (LibraryError ''recognition failed''),
   \<lparr>files = {''tmp/page.1.png'', ''tmp/upload1''},
    trace = [FromPath ''tmp/upload1'', ReadFile ''tmp/upload1'', PdfParse, Convert 1,
             Recognize ''tmp/page.1.png'']\<rparr>)"
  by (simp add: extractTextWithOCR_def readFile_def emit_def unreadablePage_def uploaded_def)


section \<open>The fallback to OCR\<close>

text \<open>
  C6. For a request whose native extraction returns the text \<open>t\<close>: the OCR is
  started (\<open>fromPath\<close> is called) exactly when the trimmed \<open>t\<close> is empty or starts with
  "%PDF". When it is not started the native text is the acquired text and no page is
  converted or recognised. When it is started the pages converted are 1, 2, ... in
  increasing order, each once, up to the page where a step fails; when the OCR
  returns, they are exactly the pages 1 to N, the images recognised are those of the
  pages 1 to N in order, and the text is the concatenation of each page's text
  followed by a newline.
\<close>

theorem ocr_fallback:
  assumes "extractTextFromPDF en p w = (Inr t, w1)" and "trace w = []"
  shows "(FromPath p \<in> set (trace (snd (acquireText en p w))) \<longleftrightarrow>
            trim t = [] \<or> startsWith (trim t) ''%PDF'') \<and>
         (\<not> (trim t = [] \<or> startsWith (trim t) ''%PDF'') \<longrightarrow>
            acquireText en p w = (Inr t, w1) \<and> convertedPages (trace w1) = [] \<and>
            recognizedPaths (trace w1) = []) \<and>
         (trim t = [] \<or> startsWith (trim t) ''%PDF'' \<longrightarrow>
            (\<exists>k. k \<le> Suc (pageCount en) \<and>
                 convertedPages (trace (snd (acquireText en p w))) = [1..<k]) \<and>
            (\<forall>r. fst (acquireText en p w) = Inr r \<longrightarrow>
               convertedPages (trace (snd (acquireText en p w))) = [1..<Suc (pageCount en)] \<and>
               recognizedPaths (trace (snd (acquireText en p w))) =
                 map (pagePath en) [1..<Suc (pageCount en)] \<and>
               r = concat (map (\<lambda>i. pageText en i @ [CHR 0x0A]) [1..<Suc (pageCount en)])))"
proof -
  from extractTextFromPDF_Inr [OF assms(1)] obtain d where
    p: "p \<in> files w" and d: "pdfParse en = Inr d" "data_text d = t"
    and w1: "w1 = emit PdfParse (emit (ReadFile p) w)"
    by blast
  have tr1: "trace w1 = [ReadFile p, PdfParse]"
    using assms(2) w1 by (simp add: emit_def)
  have f1: "p \<in> files w1" using p w1 by (simp add: emit_def)
  have pc: "pageCount en = numpages d" using d by (simp add: pageCount_def)
  show ?thesis
  proof (cases "needsOCR t")
    case False
    then have n: "\<not> (trim t = [] \<or> startsWith (trim t) ''%PDF'')" by (simp add: needsOCR_def)
    from False assms(1) have a: "acquireText en p w = (Inr t, w1)"
      by (simp add: acquireText_def)
    show ?thesis using n a tr1 by simp
  next
    case True
    then have n: "trim t = [] \<or> startsWith (trim t) ''%PDF''" by (simp add: needsOCR_def)
    from True assms(1) have a: "acquireText en p w = extractTextWithOCR en p w1"
      by (simp add: acquireText_def)
    from extractTextWithOCR_sound [OF f1 d(1)] obtain es k where
      s: "trace (snd (extractTextWithOCR en p w1)) = trace w1 @ [FromPath p, ReadFile p, PdfParse] @ es"
      "k \<le> Suc (numpages d)" "convertedPages es = [1..<k]"
      "\<forall>t. fst (extractTextWithOCR en p w1) = Inr t \<longrightarrow>
              k = Suc (numpages d) \<and>
              recognizedPaths es = map (pagePath en) [1..<Suc (numpages d)] \<and>
              t = concat (map (\<lambda>j. pageText en j @ [CHR 0x0A]) [1..<Suc (numpages d)])"
      by blast
    have c: "convertedPages (trace (snd (acquireText en p w))) = [1..<k]"
      unfolding a s(1) tr1 using s(3) by simp
    have r: "recognizedPaths (trace (snd (acquireText en p w))) = recognizedPaths es"
      unfolding a s(1) tr1 by simp
    have m: "FromPath p \<in> set (trace (snd (acquireText en p w)))"
      unfolding a s(1) by simp
    have "\<exists>k. k \<le> Suc (pageCount en) \<and>
                 convertedPages (trace (snd (acquireText en p w))) = [1..<k]"
      using c s(2) pc by auto
    moreover have "\<forall>r. fst (acquireText en p w) = Inr r \<longrightarrow>
               convertedPages (trace (snd (acquireText en p w))) = [1..<Suc (pageCount en)] \<and>
               recognizedPaths (trace (snd (acquireText en p w))) =
                 map (pagePath en) [1..<Suc (pageCount en)] \<and>
               r = concat (map (\<lambda>i. pageText en i @ [CHR 0x0A]) [1..<Suc (pageCount en)])"
      using s(4) c r unfolding a pc by auto
    ultimately show ?thesis using n m by blast
  qed
qed

theorem ocr_fallback_witness:
  "extractTextFromPDF scannedDocument ''tmp/upload1'' uploaded =
     (Inr [], \<lparr>files = {''tmp/upload1''}, trace = [ReadFile ''tmp/upload1'', PdfParse]\<rparr>) \<and>
   trace uploaded = [] \<and>
   FromPath ''tmp/upload1'' \<in> set (trace (snd (acquireText scannedDocument ''tmp/upload1'' uploaded))) \<and>
   fst (acquireText scannedDocument ''tmp/upload1'' uploaded) = Inr ''Homework\<newline>Late work: none\<newline>'' \<and>
   convertedPages (trace (snd (acquireText scannedDocument ''tmp/upload1'' uploaded))) =
     [1..<Suc (pageCount scannedDocument)] \<and>
   extractTextFromPDF nativeDocument ''tmp/upload1'' uploaded =
     (Inr ''Homework:: late'',
      \<lparr>files = {''tmp/upload1''}, trace = [ReadFile ''tmp/upload1'', PdfParse]\<rparr>) \<and>
   acquireText nativeDocument ''tmp/upload1'' uploaded =
     (Inr ''Homework:: late'',
      \<lparr>files = {''tmp/upload1''}, trace = [ReadFile ''tmp/upload1'', PdfParse]\<rparr>) \<and>
   FromPath ''tmp/upload1'' \<notin> set (trace (snd (acquireText nativeDocument ''tmp/upload1'' uploaded)))"
proof -
  let ?w1 = "\<lparr>files = {''tmp/upload1''}, trace = [ReadFile ''tmp/upload1'', PdfParse]\<rparr>"
  have s1: "extractTextFromPDF scannedDocument ''tmp/upload1'' uploaded = (Inr [], ?w1)"
    by (simp add: extractTextFromPDF_def readFile_def emit_def scannedDocument_def uploaded_def)
  have n1: "extractTextFromPDF nativeDocument ''tmp/upload1'' uploaded =
              (Inr ''Homework:: late'', ?w1)"
    by (simp add: extractTextFromPDF_def readFile_def emit_def nativeDocument_def uploaded_def)
  have fresh: "trace uploaded = []" by (simp add: uploaded_def)
  have s2: "trim [] = [] \<or> startsWith (trim []) ''%PDF''" by (simp add: trim_def)
  have n2: "\<not> (trim ''Homework:: late'' = [] \<or> startsWith (trim ''Homework:: late'') ''%PDF'')"
    by code_simp
  have s3: "fst (acquireText scannedDocument ''tmp/upload1'' uploaded) =
              Inr ''Homework\<newline>Late work: none\<newline>''"
  proof -
    have "acquireText scannedDocument ''tmp/upload1'' uploaded =
            extractTextWithOCR scannedDocument ''tmp/upload1'' ?w1"
      by (simp add: acquireText_def s1 needsOCR_def trim_def)
    then show ?thesis
      by (simp add: extractTextWithOCR_def readFile_def emit_def unlink_def scannedDocument_def)
  qed
  note s = ocr_fallback [OF s1 fresh]
  note n = ocr_fallback [OF n1 fresh]
  from s s2 s3 have "FromPath ''tmp/upload1'' \<in>
      set (trace (snd (acquireText scannedDocument ''tmp/upload1'' uploaded)))"
    and "convertedPages (trace (snd (acquireText scannedDocument ''tmp/upload1'' uploaded))) =
     [1..<Suc (pageCount scannedDocument)]"
    by blast+
  moreover from n n2 have "acquireText nativeDocument ''tmp/upload1'' uploaded =
     (Inr ''Homework:: late'', ?w1)"
    and "FromPath ''tmp/upload1'' \<notin>
      set (trace (snd (acquireText nativeDocument ''tmp/upload1'' uploaded)))"
    by blast+
  ultimately show ?thesis using s1 n1 fresh s3 by blast
qed

end
